theory Spec2Isabelle
  imports Complex_Main "HOL-Library.Word"
begin

section \<open>Data model of cursorhelper.c\<close>

text \<open>
  A C enumeration is an integer type whose enumerators are named constants, and
  \<^verbatim>\<open>getCursorType\<close> returns the bare literal \<^verbatim>\<open>1\<close> on its failure paths.
  The model therefore keeps \<open>CursorType\<close> as the integer it is in C, with the seven
  enumerators of CursorHelper-Bridging-Header.h as constants.
\<close>

type_synonym CursorType = int

definition ARROW :: CursorType where "ARROW = 0"
definition IBEAM :: CursorType where "IBEAM = 1"
definition HORIZONTAL_RESIZE :: CursorType where "HORIZONTAL_RESIZE = 2"
definition VERTICAL_RESIZE :: CursorType where "VERTICAL_RESIZE = 3"
definition DIAGONAL_RESIZE :: CursorType where "DIAGONAL_RESIZE = 4"
definition POINTER :: CursorType where "POINTER = 5"
definition OTHER :: CursorType where "OTHER = 6"

text \<open>The enumerators the header declares, in declaration order.\<close>

definition declared_categories :: "CursorType list" where
  "declared_categories =
     [ARROW, IBEAM, HORIZONTAL_RESIZE, VERTICAL_RESIZE, DIAGONAL_RESIZE, POINTER, OTHER]"

type_synonym CGError = int

definition kCGErrorSuccess :: CGError where "kCGErrorSuccess = 0"

type_synonym ptr = nat

definition NULL :: ptr where "NULL = 0"

type_synonym u8 = "8 word"

text \<open>
  What a call does besides returning: a line on the error stream (the format string
  without its final newline, and the error code printed into it), the allocation and
  release of a buffer, a call of the pixel classifier on a buffer, and a call into the
  platform.
\<close>

datatype event =
    Stderr string int
  | Malloc ptr
  | Free ptr
  | Classify ptr
  | Platform string

text \<open>
  Behaviour the C standard leaves undefined is a value of the model: a read outside the
  pixel buffer, a floating-point division by zero, and the conversion to \<^verbatim>\<open>int\<close> of a
  floating-point number whose integral part is not an \<^verbatim>\<open>int\<close>.
\<close>

datatype fault = OutOfBounds | DivisionByZero | IntConversion

section \<open>Double-precision arithmetic\<close>

text \<open>
  The classifier and the facade convert non-negative \<^verbatim>\<open>int\<close>s to \<^verbatim>\<open>double\<close>, divide
  them and compare the quotient for equality. A non-negative finite double is modelled by
  its 53-bit significand and its exponent: \<open>Dbl m e\<close> stands for \<open>m * 2 ^ e\<close>, with
  \<open>2 ^ 52 \<le> m < 2 ^ 53\<close>, and zero is \<open>Dbl 0 0\<close>. The representation is unique, so
  the \<^verbatim>\<open>==\<close> of C is equality of representations.

  \<open>dbl_of_int\<close> is the conversion \<^verbatim>\<open>(double)n\<close>, exact for \<open>0 \<le> n < 2 ^ 53\<close>
  and so for every non-negative 32-bit \<^verbatim>\<open>int\<close>. \<open>dbl_div\<close> is IEEE 754 division in the
  default rounding mode (to nearest, ties to even); the quotient of two such integers lies
  between \<open>2 ^ - 31\<close> and \<open>2 ^ 31\<close>, away from overflow and from the subnormal range.
\<close>

datatype dbl = Dbl (mant: int) (expo: int)

function normalize :: "int \<Rightarrow> int \<Rightarrow> dbl" where
  "normalize m e =
     (if m \<le> 0 then Dbl 0 0
      else if m < 2 ^ 52 then normalize (2 * m) (e - 1)
      else Dbl m e)"
  by pat_completeness auto
termination
  by (relation "measure (\<lambda>(m, e). nat (2 ^ 52 - m))") auto

definition dbl_of_int :: "int \<Rightarrow> dbl" where
  "dbl_of_int n = normalize n 0"

text \<open>\<open>rne n d\<close> is the integer nearest to \<open>n / d\<close>, the even one of two equally near.\<close>

definition rne :: "int \<Rightarrow> int \<Rightarrow> int" where
  "rne n d =
     (let q = n div d; r = n mod d
      in if 2 * r < d then q
         else if d < 2 * r then q + 1
         else if even q then q else q + 1)"

definition dbl_div :: "dbl \<Rightarrow> dbl \<Rightarrow> fault + dbl" where
  "dbl_div a b =
     (if mant b = 0 then Inl DivisionByZero
      else if mant a = 0 then Inr (Dbl 0 0)
      else
        let (m, e) =
              (if mant b \<le> mant a
               then (rne (mant a * 2 ^ 52) (mant b), expo a - expo b - 52)
               else (rne (mant a * 2 ^ 53) (mant b), expo a - expo b - 53))
        in Inr (if m = 2 ^ 53 then Dbl (2 ^ 52) (e + 1) else Dbl m e))"

text \<open>
  The rational number a representation stands for, and the representations with a 53-bit
  significand. They are used to state that \<open>dbl_of_int\<close> is exact and that
  \<open>dbl_div\<close> rounds the exact quotient to the nearest double, ties to even.
\<close>

definition dbl_val :: "dbl \<Rightarrow> rat" where
  "dbl_val x = of_int (mant x) * 2 powi expo x"

definition normal :: "dbl \<Rightarrow> bool" where
  "normal x = (2 ^ 52 \<le> mant x \<and> mant x < 2 ^ 53)"

text \<open>
  The literal \<^verbatim>\<open>0.04\<close>: the double nearest to 1/25, bit pattern 0x3FA47AE147AE147B,
  that is 0x147AE147AE147B * 2 ^ - 57.
\<close>

definition dbl_0_04 :: dbl where
  "dbl_0_04 = Dbl 5764607523034235 (- 57)"

section \<open>The classifier: determineResizeDirection\<close>

text \<open>
  The byte index of the first byte of pixel \<open>(x, y)\<close>. The source computes it in
  \<^verbatim>\<open>size_t\<close>; for non-negative 32-bit operands the value stays below \<open>2 ^ 64\<close>, so the
  arithmetic is that of the naturals.
\<close>

definition pixel_index :: "int \<Rightarrow> int \<Rightarrow> int \<Rightarrow> nat" where
  "pixel_index y width x = (nat y * nat width + nat x) * 4"

definition read_u8 :: "u8 list \<Rightarrow> nat \<Rightarrow> fault + u8" where
  "read_u8 buf i = (if i < length buf then Inr (buf ! i) else Inl OutOfBounds)"

text \<open>
  The \<^verbatim>\<open>int\<close> variables of the source are integers here. The counters never
  exceed \<open>width * height\<close>, which is below \<open>2 ^ 29\<close> for a bitmap whose bytes fit
  a buffer of \<^verbatim>\<open>int\<close> size, so no counter of the source overflows.
\<close>

text \<open>
  The first loop nest. \<open>diag_cols\<close> is the inner loop over \<open>x\<close> from its current
  value, \<open>diag_rows\<close> the outer loop over \<open>y\<close>; the state is
  \<open>(diagCount1, diagCount2, totalCount)\<close>.
\<close>

function diag_cols ::
  "u8 list \<Rightarrow> int \<Rightarrow> int \<Rightarrow> int \<Rightarrow> int \<times> int \<times> int \<Rightarrow> fault + int \<times> int \<times> int" where
  "diag_cols pixelData width y x (diagCount1, diagCount2, totalCount) =
     (if x < width then
        (case read_u8 pixelData (pixel_index y width x) of
           Inl f \<Rightarrow> Inl f
         | Inr alpha \<Rightarrow>
             diag_cols pixelData width y (x + 1)
               (if 10 < alpha
                then (if x = y then diagCount1 + 1 else diagCount1,
                      if x = width - y - 1 then diagCount2 + 1 else diagCount2,
                      totalCount + 1)
                else (diagCount1, diagCount2, totalCount)))
      else Inr (diagCount1, diagCount2, totalCount))"
  by pat_completeness auto
termination
  by (relation "measure (\<lambda>(pixelData, width, y, x, c). nat (width - x))") auto

function diag_rows ::
  "u8 list \<Rightarrow> int \<Rightarrow> int \<Rightarrow> int \<Rightarrow> int \<times> int \<times> int \<Rightarrow> fault + int \<times> int \<times> int" where
  "diag_rows pixelData width height y c =
     (if y < height then
        (case diag_cols pixelData width y 0 c of
           Inl f \<Rightarrow> Inl f
         | Inr c' \<Rightarrow> diag_rows pixelData width height (y + 1) c')
      else Inr c)"
  by pat_completeness auto
termination
  by (relation "measure (\<lambda>(pixelData, width, height, y, c). nat (height - y))") auto

text \<open>
  The test after the first loop nest: the two fractions are computed only when
  \<open>totalCount\<close> is positive.
\<close>

definition diagonal_test :: "int \<Rightarrow> int \<Rightarrow> int \<Rightarrow> fault + bool" where
  "diagonal_test diagCount1 diagCount2 totalCount =
     (if 0 < totalCount then
        (case dbl_div (dbl_of_int diagCount1) (dbl_of_int totalCount) of
           Inl f \<Rightarrow> Inl f
         | Inr frac1 \<Rightarrow>
             (case dbl_div (dbl_of_int diagCount2) (dbl_of_int totalCount) of
                Inl f \<Rightarrow> Inl f
              | Inr frac2 \<Rightarrow> Inr (frac1 = dbl_of_int 0 \<and> frac2 = dbl_0_04)))
      else Inr False)"

text \<open>
  The second loop nest, over the arrays \<open>rowCounts\<close> and \<open>colCounts\<close> and the
  running \<open>maxInAnyRow\<close>, and the loop that finds \<open>maxInAnyCol\<close>.
\<close>

function occ_cols ::
  "u8 list \<Rightarrow> int \<Rightarrow> int \<Rightarrow> int \<Rightarrow> int list \<times> int list \<Rightarrow> fault + int list \<times> int list" where
  "occ_cols pixelData width y x (rowCounts, colCounts) =
     (if x < width then
        (case read_u8 pixelData (pixel_index y width x) of
           Inl f \<Rightarrow> Inl f
         | Inr alpha \<Rightarrow>
             occ_cols pixelData width y (x + 1)
               (if 10 < alpha
                then (rowCounts[nat y := rowCounts ! nat y + 1],
                      colCounts[nat x := colCounts ! nat x + 1])
                else (rowCounts, colCounts)))
      else Inr (rowCounts, colCounts))"
  by pat_completeness auto
termination
  by (relation "measure (\<lambda>(pixelData, width, y, x, c). nat (width - x))") auto

function occ_rows ::
  "u8 list \<Rightarrow> int \<Rightarrow> int \<Rightarrow> int \<Rightarrow> int list \<times> int list \<times> int
     \<Rightarrow> fault + int list \<times> int list \<times> int" where
  "occ_rows pixelData width height y (rowCounts, colCounts, maxInAnyRow) =
     (if y < height then
        (case occ_cols pixelData width y 0 (rowCounts, colCounts) of
           Inl f \<Rightarrow> Inl f
         | Inr (rowCounts', colCounts') \<Rightarrow>
             occ_rows pixelData width height (y + 1)
               (rowCounts', colCounts',
                if maxInAnyRow < rowCounts' ! nat y then rowCounts' ! nat y else maxInAnyRow))
      else Inr (rowCounts, colCounts, maxInAnyRow))"
  by pat_completeness auto
termination
  by (relation "measure (\<lambda>(pixelData, width, height, y, c). nat (height - y))") auto

function max_cols :: "int list \<Rightarrow> int \<Rightarrow> int \<Rightarrow> int \<Rightarrow> int" where
  "max_cols colCounts width x maxInAnyCol =
     (if x < width then
        max_cols colCounts width (x + 1)
          (if maxInAnyCol < colCounts ! nat x then colCounts ! nat x else maxInAnyCol)
      else maxInAnyCol)"
  by pat_completeness auto
termination
  by (relation "measure (\<lambda>(colCounts, width, x, m). nat (width - x))") auto

text \<open>The \<^verbatim>\<open>switch\<close> on \<open>maxInAnyRow\<close> and the \<^verbatim>\<open>return OTHER\<close> after it.\<close>

definition occupancy_switch :: "int \<Rightarrow> int \<Rightarrow> CursorType" where
  "occupancy_switch maxInAnyRow maxInAnyCol =
     (if maxInAnyRow = 6 then VERTICAL_RESIZE
      else if maxInAnyRow = 8 then HORIZONTAL_RESIZE
      else if maxInAnyRow = 10 then HORIZONTAL_RESIZE
      else if maxInAnyRow = 14 then (if maxInAnyCol = 13 then POINTER else VERTICAL_RESIZE)
      else OTHER)"

definition determineResizeDirection :: "u8 list \<Rightarrow> int \<Rightarrow> int \<Rightarrow> fault + CursorType" where
  "determineResizeDirection pixelData width height =
     (case diag_rows pixelData width height 0 (0, 0, 0) of
        Inl f \<Rightarrow> Inl f
      | Inr (diagCount1, diagCount2, totalCount) \<Rightarrow>
          (case diagonal_test diagCount1 diagCount2 totalCount of
             Inl f \<Rightarrow> Inl f
           | Inr True \<Rightarrow> Inr DIAGONAL_RESIZE
           | Inr False \<Rightarrow>
               (case occ_rows pixelData width height 0
                       (replicate (nat height) 0, replicate (nat width) 0, 0) of
                  Inl f \<Rightarrow> Inl f
                | Inr (rowCounts, colCounts, maxInAnyRow) \<Rightarrow>
                    Inr (occupancy_switch maxInAnyRow (max_cols colCounts width 0 0)))))"

section \<open>The facade: getCursorType\<close>

text \<open>
  The cursor service and the allocator are outside the program; one query sees them
  through what their calls return. \<open>size_status\<close> and \<open>size_bytes\<close> are the status
  of \<^verbatim>\<open>CGSGetGlobalCursorDataSize\<close> and the \<^verbatim>\<open>dataSize\<close> it stores,
  \<open>malloc_result\<close> is what \<^verbatim>\<open>malloc\<close> returns, \<open>data_status\<close> the status of
  \<^verbatim>\<open>CGSGetGlobalCursorData\<close>, \<open>data_bytes\<close> the bytes it leaves in the buffer, and
  \<open>size_width\<close>, \<open>size_height\<close> the \<^verbatim>\<open>cursorSize\<close> it stores (a \<^verbatim>\<open>CGFloat\<close>
  each, taken as a rational number).
\<close>

record cursor_service =
  size_status :: CGError
  size_bytes :: int
  malloc_result :: ptr
  data_status :: CGError
  data_bytes :: "u8 list"
  size_width :: rat
  size_height :: rat

text \<open>The conversion \<^verbatim>\<open>(int)f\<close> of C: truncation towards zero, undefined out of range.\<close>

definition int_of_CGFloat :: "rat \<Rightarrow> fault + int" where
  "int_of_CGFloat f =
     (let t = (if 0 \<le> f then \<lfloor>f\<rfloor> else \<lceil>f\<rceil>)
      in if - (2 ^ 31) \<le> t \<and> t < 2 ^ 31 then Inr t else Inl IntConversion)"

text \<open>
  The part of \<^verbatim>\<open>getCursorType\<close> after the bitmap has been fetched into the buffer at
  \<open>pixelData\<close>, holding \<open>buf\<close>: the two conversions, the dimension rules and the call
  of the classifier. It returns the result and the events after the allocation.
\<close>

definition classify_fetched ::
  "ptr \<Rightarrow> u8 list \<Rightarrow> rat \<Rightarrow> rat \<Rightarrow> (fault + CursorType) \<times> event list" where
  "classify_fetched pixelData buf cursorWidth cursorHeight =
     (case int_of_CGFloat cursorWidth of
        Inl f \<Rightarrow> (Inl f, [])
      | Inr width \<Rightarrow>
     (case int_of_CGFloat cursorHeight of
        Inl f \<Rightarrow> (Inl f, [])
      | Inr height \<Rightarrow>
          if 0 < width \<and> 0 < height then
            (case dbl_div (dbl_of_int width) (dbl_of_int height) of
               Inl f \<Rightarrow> (Inl f, [])
             | Inr ratio \<Rightarrow>
                 if width = 23 \<and> height = 22 then (Inr IBEAM, [Free pixelData])
                 else if ratio = dbl_of_int 1 then
                   (case determineResizeDirection buf width height of
                      Inl f \<Rightarrow> (Inl f, [Classify pixelData])
                    | Inr result \<Rightarrow> (Inr result, [Classify pixelData, Free pixelData]))
                 else (Inr ARROW, [Free pixelData]))
          else (Inr ARROW, [Free pixelData])))"

definition getCursorType :: "cursor_service \<Rightarrow> (fault + CursorType) \<times> event list" where
  "getCursorType sv =
     (let err = size_status sv; dataSize = size_bytes sv in
      if err \<noteq> kCGErrorSuccess \<or> dataSize \<le> 0 then
        (Inr 1,
         [Stderr ''[Error] GCSGetGlobalCursorDataSize failed with error code %d.'' err])
      else
        let pixelData = malloc_result sv in
        if pixelData = NULL then
          (Inr 1,
           [Malloc pixelData, Free pixelData,
            Stderr ''[Error] Failed to allocate cursor data buffer.'' 0])
        else
          let err = data_status sv in
          if err \<noteq> kCGErrorSuccess then
            (Inr 1,
             [Malloc pixelData, Free pixelData,
              Stderr ''[Error] CGSGetGlobalCursorData failed with error code %d.'' err])
          else
            let (result, events) =
                  classify_fetched pixelData (take (nat dataSize) (data_bytes sv))
                    (size_width sv) (size_height sv)
            in (result, Malloc pixelData # events))"

definition getCurrentCursorType :: "cursor_service \<Rightarrow> (fault + CursorType) \<times> event list" where
  "getCurrentCursorType sv = getCursorType sv"

text \<open>
  The heap after a trace: the set of live buffers, or \<open>None\<close> once a pointer that is
  not live is released. \<^verbatim>\<open>malloc\<close> returning \<open>NULL\<close> allocates nothing and
  \<^verbatim>\<open>free(NULL)\<close> does nothing.
\<close>

fun heap_after :: "event list \<Rightarrow> ptr set \<Rightarrow> ptr set option" where
  "heap_after [] live = Some live"
| "heap_after (Malloc p # es) live =
     (if p = NULL then heap_after es live else heap_after es (insert p live))"
| "heap_after (Free p # es) live =
     (if p = NULL then heap_after es live
      else if p \<in> live then heap_after es (live - {p})
      else None)"
| "heap_after (e # es) live = heap_after es live"

section \<open>Visibility controller\<close>

text \<open>
  \<open>error\<close> is what the platform's hide (show) command returns and
  \<open>eventSourceRef\<close> what \<^verbatim>\<open>CGEventSourceCreate\<close> returns.
\<close>

definition hideCursor :: "CGError \<Rightarrow> ptr \<Rightarrow> int \<times> event list" where
  "hideCursor error eventSourceRef =
     (0,
      [Platform ''CFStringCreateWithCString'',
       Platform ''CGSSetConnectionProperty'',
       Platform ''CFRelease'',
       Platform ''CGDisplayHideCursor'']
      @ (if error \<noteq> kCGErrorSuccess
         then [Stderr ''[Error] CGDisplayHideCursor failed (error = %d)'' error] else [])
      @ [Platform ''CGEventSourceCreate'',
         Platform ''CGEventSourceSetLocalEventsSuppressionInterval'']
      @ (if eventSourceRef \<noteq> NULL then [Platform ''CFRelease''] else []))"

definition showCursor :: "CGError \<Rightarrow> ptr \<Rightarrow> int \<times> event list" where
  "showCursor error eventSourceRef =
     (0,
      [Platform ''CGDisplayShowCursor'']
      @ (if error \<noteq> kCGErrorSuccess
         then [Stderr ''[Error] CGDisplayShowCursor failed (error = %d)'' error] else [])
      @ [Platform ''CGEventSourceCreate'',
         Platform ''CGEventSourceSetLocalEventsSuppressionInterval'']
      @ (if eventSourceRef \<noteq> NULL then [Platform ''CFRelease''] else []))"

text \<open>The lines a trace writes to the error stream.\<close>

fun stderr_lines :: "event list \<Rightarrow> (string \<times> int) list" where
  "stderr_lines [] = []"
| "stderr_lines (Stderr s n # es) = (s, n) # stderr_lines es"
| "stderr_lines (e # es) = stderr_lines es"

section \<open>The notions the specification speaks of\<close>

text \<open>
  A pixel \<open>(x, y)\<close> is opaque when its first byte exceeds 10. The counts below are
  written from the specification's words, over the coordinates of the bitmap, and are
  compared with what the loops of the source compute.
\<close>

definition opaque :: "u8 list \<Rightarrow> int \<Rightarrow> int \<times> int \<Rightarrow> bool" where
  "opaque pixelData width p =
     (case read_u8 pixelData (pixel_index (snd p) width (fst p)) of
        Inr alpha \<Rightarrow> 10 < alpha
      | Inl f \<Rightarrow> False)"

definition cnt :: "('a \<Rightarrow> bool) \<Rightarrow> 'a list \<Rightarrow> int" where
  "cnt P xs = int (length (filter P xs))"

definition row_pixels :: "int \<Rightarrow> int \<Rightarrow> (int \<times> int) list" where
  "row_pixels width y = map (\<lambda>x. (x, y)) [0..width - 1]"

definition col_pixels :: "int \<Rightarrow> int \<Rightarrow> (int \<times> int) list" where
  "col_pixels height x = map (\<lambda>y. (x, y)) [0..height - 1]"

definition all_pixels :: "int \<Rightarrow> int \<Rightarrow> (int \<times> int) list" where
  "all_pixels width height = concat (map (row_pixels width) [0..height - 1])"

definition total_opaque :: "u8 list \<Rightarrow> int \<Rightarrow> int \<Rightarrow> int" where
  "total_opaque pixelData width height = cnt (opaque pixelData width) (all_pixels width height)"

definition main_diag_opaque :: "u8 list \<Rightarrow> int \<Rightarrow> int \<Rightarrow> int" where
  "main_diag_opaque pixelData width height =
     cnt (\<lambda>p. opaque pixelData width p \<and> fst p = snd p) (all_pixels width height)"

definition anti_diag_opaque :: "u8 list \<Rightarrow> int \<Rightarrow> int \<Rightarrow> int" where
  "anti_diag_opaque pixelData width height =
     cnt (\<lambda>p. opaque pixelData width p \<and> fst p = width - snd p - 1) (all_pixels width height)"

definition row_count :: "u8 list \<Rightarrow> int \<Rightarrow> int \<Rightarrow> int" where
  "row_count pixelData width y = cnt (opaque pixelData width) (row_pixels width y)"

definition col_count :: "u8 list \<Rightarrow> int \<Rightarrow> int \<Rightarrow> int \<Rightarrow> int" where
  "col_count pixelData width height x = cnt (opaque pixelData width) (col_pixels height x)"

definition maxRow :: "u8 list \<Rightarrow> int \<Rightarrow> int \<Rightarrow> int" where
  "maxRow pixelData width height =
     Max (set (map (row_count pixelData width) [0..height - 1]))"

definition maxCol :: "u8 list \<Rightarrow> int \<Rightarrow> int \<Rightarrow> int" where
  "maxCol pixelData width height =
     Max (set (map (col_count pixelData width height) [0..width - 1]))"

text \<open>
  The diagonal signature: some pixel is opaque, the fraction of opaque pixels on the main
  diagonal is the double 0 and the fraction on the anti-diagonal is the double 0.04.
\<close>

definition diagonal_signature :: "u8 list \<Rightarrow> int \<Rightarrow> int \<Rightarrow> bool" where
  "diagonal_signature pixelData width height =
     (0 < total_opaque pixelData width height
      \<and> dbl_div (dbl_of_int (main_diag_opaque pixelData width height))
                (dbl_of_int (total_opaque pixelData width height)) = Inr (dbl_of_int 0)
      \<and> dbl_div (dbl_of_int (anti_diag_opaque pixelData width height))
                (dbl_of_int (total_opaque pixelData width height)) = Inr dbl_0_04)"

text \<open>The buffer holds the first byte of every pixel of a \<open>width\<close> by \<open>height\<close> bitmap.\<close>

definition holds_bitmap :: "u8 list \<Rightarrow> int \<Rightarrow> int \<Rightarrow> bool" where
  "holds_bitmap pixelData width height = (nat (4 * width * height) \<le> length pixelData)"

text \<open>
  Sample bitmaps for concrete checks: \<open>bitmap_of_mask\<close> turns a row-major list of
  0/1 flags into RGBA pixels whose first byte is 255 where the flag is 1 and 0 elsewhere.
  \<open>sample_diagonal\<close> is an 8 by 8 bitmap with 25 opaque pixels, none on the main
  diagonal, one on the anti-diagonal, and six in each of its first four rows.
\<close>

definition bitmap_of_mask :: "nat list \<Rightarrow> u8 list" where
  "bitmap_of_mask bits = concat (map (\<lambda>b. [if b = 1 then 255 else 0, 0, 0, 0]) bits)"

definition sample_diagonal :: "u8 list" where
  "sample_diagonal = bitmap_of_mask
     [0,1,1,1,1,1,1,0,
      1,0,1,1,1,1,0,1,
      1,1,0,1,1,0,1,1,
      1,1,1,0,0,1,1,1,
      0,0,0,1,0,0,0,0,
      0,0,0,0,0,0,0,0,
      0,0,0,0,0,0,0,0,
      0,0,0,0,0,0,0,0]"

text \<open>
  A sample service for concrete checks: both calls succeed, the allocation succeeds at
  address 4096, and the service reports the given size and leaves the given bytes.
\<close>

definition sample_service :: "rat \<Rightarrow> rat \<Rightarrow> u8 list \<Rightarrow> cursor_service" where
  "sample_service fw fh bytes =
     \<lparr>size_status = kCGErrorSuccess, size_bytes = int (length bytes), malloc_result = 4096,
      data_status = kCGErrorSuccess, data_bytes = bytes, size_width = fw, size_height = fh\<rparr>"

section \<open>Facts about the double-precision model\<close>

text \<open>
  The conversion of a positive integer below \<open>2 ^ 53\<close> shifts it left until it has 53
  bits, so it is exact and injective.
\<close>

lemma normalize_shape:
  "0 < n \<Longrightarrow> n < 2 ^ 53 \<Longrightarrow>
   \<exists>k. normalize n e = Dbl (n * 2 ^ k) (e - int k) \<and> 2 ^ 52 \<le> n * 2 ^ k \<and> n * 2 ^ k < 2 ^ 53"
proof (induction n e rule: normalize.induct)
  case (1 m e)
  show ?case
  proof (cases "m < 2 ^ 52")
    case True
    with "1.prems" have "0 < 2 * m" "2 * m < 2 ^ 53" by simp_all
    with "1.IH" "1.prems" True obtain k where
      k: "normalize (2 * m) (e - 1) = Dbl (2 * m * 2 ^ k) (e - 1 - int k)"
         "2 ^ 52 \<le> 2 * m * 2 ^ k" "2 * m * 2 ^ k < 2 ^ 53"
      by fastforce
    have "normalize m e = normalize (2 * m) (e - 1)"
      using "1.prems" True by simp
    with k show ?thesis
      by (intro exI [of _ "Suc k"]) (simp add: mult.assoc mult.left_commute)
  next
    case False
    with "1.prems" show ?thesis
      by (intro exI [of _ 0]) simp
  qed
qed

lemma dbl_of_int_shape:
  assumes "0 < n" "n < 2 ^ 53"
  obtains k where "dbl_of_int n = Dbl (n * 2 ^ k) (- int k)" "2 ^ 52 \<le> n * 2 ^ k" "n * 2 ^ k < 2 ^ 53"
  using normalize_shape [OF assms, of 0] unfolding dbl_of_int_def by auto

lemma dbl_of_int_0: "dbl_of_int 0 = Dbl 0 0"
  by (simp add: dbl_of_int_def)

lemma dbl_of_int_1: "dbl_of_int 1 = Dbl (2 ^ 52) (- 52)"
  by (simp add: dbl_of_int_def)

lemma rne_bounds:
  assumes "0 < d"
  shows "2 * (d * rne n d) \<le> 2 * n + d" and "2 * n - d \<le> 2 * (d * rne n d)"
proof -
  define q where "q = n div d"
  define r where "r = n mod d"
  define dq where "dq = d * q"
  have n: "n = dq + r"
    by (simp add: dq_def q_def r_def)
  have r: "0 \<le> r" "r < d"
    using assms by (simp_all add: r_def)
  have up: "d * (q + 1) = dq + d"
    by (simp add: dq_def algebra_simps)
  have "rne n d = q \<and> 2 * r \<le> d \<or> rne n d = q + 1 \<and> d \<le> 2 * r"
    by (auto simp: rne_def Let_def q_def r_def)
  then have "d * rne n d = dq \<and> 2 * r \<le> d \<or> d * rne n d = dq + d \<and> d \<le> 2 * r"
    using up by (auto simp: dq_def)
  then show "2 * (d * rne n d) \<le> 2 * n + d" "2 * n - d \<le> 2 * (d * rne n d)"
    using n r by auto
qed

lemma rne_exact: "0 < d \<Longrightarrow> rne (d * k) d = k"
  by (simp add: rne_def Let_def)

lemma ratio_one_iff:
  assumes a: "0 < a" "a < 2 ^ 53" and b: "0 < b" "b < 2 ^ 53"
  shows "dbl_div (dbl_of_int a) (dbl_of_int b) = Inr (dbl_of_int 1) \<longleftrightarrow> a = b"
proof -
  obtain j where j: "dbl_of_int a = Dbl (a * 2 ^ j) (- int j)"
      "2 ^ 52 \<le> a * 2 ^ j" "a * 2 ^ j < 2 ^ 53"
    using dbl_of_int_shape [OF a] by blast
  obtain k where k: "dbl_of_int b = Dbl (b * 2 ^ k) (- int k)"
      "2 ^ 52 \<le> b * 2 ^ k" "b * 2 ^ k < 2 ^ 53"
    using dbl_of_int_shape [OF b] by blast
  define m1 where "m1 = a * 2 ^ j"
  define m2 where "m2 = b * 2 ^ k"
  have m1: "2 ^ 52 \<le> m1" "m1 < 2 ^ 53" and m2: "2 ^ 52 \<le> m2" "m2 < 2 ^ 53"
    using j k by (simp_all add: m1_def m2_def)
  have pos: "0 < m2" using m2 by simp
  show ?thesis
  proof
    assume "a = b"
    with j k have "j = k"
      by simp
    with \<open>a = b\<close> have "m1 = m2" by (simp add: m1_def m2_def)
    have "rne (m2 * 2 ^ 52) m2 = 2 ^ 52"
      using rne_exact [OF pos, of "2 ^ 52"] by simp
    then show "dbl_div (dbl_of_int a) (dbl_of_int b) = Inr (dbl_of_int 1)"
      using pos b \<open>m1 = m2\<close> \<open>j = k\<close> \<open>a = b\<close> unfolding j k dbl_of_int_1
      by (simp add: dbl_div_def m2_def m1_def)
  next
    assume eq: "dbl_div (dbl_of_int a) (dbl_of_int b) = Inr (dbl_of_int 1)"
    have "m1 = m2 \<and> j = k"
    proof (cases "m2 \<le> m1")
      case True
      define r where "r = rne (m1 * 2 ^ 52) m2"
      have res: "dbl_div (dbl_of_int a) (dbl_of_int b) =
          Inr (if r = 2 ^ 53 then Dbl (2 ^ 52) (int k - int j - 52 + 1) else Dbl r (int k - int j - 52))"
        using True m1 m2 unfolding j k
        by (simp add: dbl_div_def m1_def [symmetric] m2_def [symmetric] r_def)
      have b1: "2 * (m2 * r) \<le> 2 * (m1 * 2 ^ 52) + m2" and b2: "2 * (m1 * 2 ^ 52) - m2 \<le> 2 * (m2 * r)"
        unfolding r_def using rne_bounds [OF pos] by blast+
      have "r \<noteq> 2 ^ 53"
      proof
        assume "r = 2 ^ 53"
        with b1 m1 m2 show False by simp
      qed
      with eq res have "r = 2 ^ 52" "int k - int j - 52 = - 52"
        by (simp_all add: dbl_of_int_1)
      with b1 b2 m1 m2 True show ?thesis by simp
    next
      case False
      define r where "r = rne (m1 * 2 ^ 53) m2"
      have res: "dbl_div (dbl_of_int a) (dbl_of_int b) =
          Inr (if r = 2 ^ 53 then Dbl (2 ^ 52) (int k - int j - 53 + 1) else Dbl r (int k - int j - 53))"
        using False m1 m2 unfolding j k
        by (simp add: dbl_div_def m1_def [symmetric] m2_def [symmetric] r_def)
      have b1: "2 * (m2 * r) \<le> 2 * (m1 * 2 ^ 53) + m2" and b2: "2 * (m1 * 2 ^ 53) - m2 \<le> 2 * (m2 * r)"
        unfolding r_def using rne_bounds [OF pos] by blast+
      have "r \<noteq> 2 ^ 53"
      proof
        assume "r = 2 ^ 53"
        with b1 m1 m2 False show False by simp
      qed
      moreover have "r \<noteq> 2 ^ 52"
      proof
        assume "r = 2 ^ 52"
        with b2 m1 m2 False show False by simp
      qed
      ultimately show ?thesis using eq res by (simp add: dbl_of_int_1)
    qed
    then have "a * 2 ^ k = b * 2 ^ k" by (auto simp: m1_def m2_def)
    then show "a = b" by simp
  qed
qed

lemma mant_normalize_pos: "0 < n \<Longrightarrow> 0 < mant (normalize n e)"
proof (induction n e rule: normalize.induct)
  case (1 m e)
  then show ?case by (cases "m < 2 ^ 52") simp_all
qed

lemma dbl_div_defined:
  assumes "0 < t"
  shows "\<exists>q. dbl_div a (dbl_of_int t) = Inr q"
proof -
  have "mant (dbl_of_int t) \<noteq> 0"
    using mant_normalize_pos [OF assms, of 0] by (simp add: dbl_of_int_def)
  then show ?thesis
    by (simp add: dbl_div_def Let_def split: prod.splits)
qed

lemma dbl_div_by_zero: "dbl_div a (dbl_of_int 0) = Inl DivisionByZero"
  by (simp add: dbl_div_def dbl_of_int_0)

text \<open>
  The model agrees with the arithmetic it stands for: the conversion of an integer is
  exact, and the quotient of two normal doubles is a normal double within half a unit in
  the last place of the exact quotient, with an even significand when it is exactly half a
  unit away.
\<close>

lemma dbl_val_of_int:
  assumes "0 \<le> n" "n < 2 ^ 53"
  shows "dbl_val (dbl_of_int n) = of_int n"
proof (cases "n = 0")
  case True
  then show ?thesis by (simp add: dbl_of_int_0 dbl_val_def)
next
  case False
  with assms have "0 < n" by simp
  then obtain k where k: "dbl_of_int n = Dbl (n * 2 ^ k) (- int k)"
    using dbl_of_int_shape [OF _ assms(2)] by blast
  have p: "(2::rat) powi (- int k) = inverse (2 ^ k)"
    by (simp add: power_int_minus)
  have "dbl_val (dbl_of_int n) = (of_int n * 2 ^ k) * inverse (2 ^ k)"
    unfolding k dbl_val_def dbl.sel p by simp
  also have "\<dots> = of_int n"
    by simp
  finally show ?thesis .
qed


lemma normal_of_int:
  assumes "0 < n" "n < 2 ^ 53"
  shows "normal (dbl_of_int n)"
proof -
  obtain k where "dbl_of_int n = Dbl (n * 2 ^ k) (- int k)" "2 ^ 52 \<le> n * 2 ^ k" "n * 2 ^ k < 2 ^ 53"
    using dbl_of_int_shape [OF assms] by blast
  then show ?thesis by (simp add: normal_def)
qed

lemma rne_tie_even:
  assumes "0 < d" "2 * \<bar>d * rne n d - n\<bar> = d"
  shows "even (rne n d)"
proof -
  define q where "q = n div d"
  define r where "r = n mod d"
  define dq where "dq = d * q"
  have n: "n = dq + r"
    by (simp add: dq_def q_def r_def)
  have r: "0 \<le> r" "r < d"
    using assms by (simp_all add: r_def)
  have up: "d * (q + 1) = dq + d"
    by (simp add: dq_def algebra_simps)
  consider "2 * r < d" "rne n d = q" | "d < 2 * r" "rne n d = q + 1" | "2 * r = d" "even (rne n d)"
    by (cases "2 * r < d"; cases "d < 2 * r")
       (auto simp: rne_def Let_def q_def r_def)
  then show ?thesis
  proof cases
    case 1
    then have "d * rne n d - n = - r" using n by (simp add: dq_def)
    with assms(2) r 1 show ?thesis by simp
  next
    case 2
    then have "d * rne n d - n = d - r" using n up by simp
    with assms(2) r 2 show ?thesis by simp
  next
    case 3
    then show ?thesis by simp
  qed
qed

lemma half_ulp_rat:
  fixes M N R P :: rat
  assumes "0 < M" "0 < P"
  shows "2 * \<bar>R * P - N / M * P\<bar> = (2 * \<bar>M * R - N\<bar>) / M * P"
proof -
  have "R * P - N / M * P = ((M * R - N) / M) * P"
    using assms by (simp add: field_simps)
  then show ?thesis
    using assms by (simp add: abs_mult abs_divide)
qed

lemma powi_split:
  fixes e1 e2 :: int and s :: nat
  shows "(2::rat) powi e1 = 2 powi (e1 - e2 - int s) * 2 ^ s * 2 powi e2"
proof -
  have "(2::rat) powi e1 = 2 powi ((e1 - e2 - int s) + int s + e2)"
    by simp
  also have "\<dots> = 2 powi (e1 - e2 - int s) * 2 powi (int s) * 2 powi e2"
    by (simp only: power_int_add [of "2::rat", simplified])
  finally show ?thesis by simp
qed

lemma quot_rat:
  fixes M P Q :: rat and m1 :: int and s :: nat
  assumes "0 < M" "0 < Q"
  shows "(of_int m1 * (P * 2 ^ s * Q)) / (M * Q) = of_int (m1 * 2 ^ s) / M * P"
  using assms by simp

lemma rne_mantissa:
  assumes m1: "2 ^ 52 \<le> m1" "m1 < 2 ^ 53" and m2: "2 ^ 52 \<le> m2" "m2 < 2 ^ 53"
    and s: "s = (if m2 \<le> m1 then 52 else 53)"
  shows "2 ^ 52 \<le> rne (m1 * 2 ^ s) m2" and "rne (m1 * 2 ^ s) m2 < 2 ^ 53"
proof -
  have pos: "0 < m2" using m2 by simp
  define r where "r = rne (m1 * 2 ^ s) m2"
  define t where "t = m2 * r"
  have b1: "2 * t \<le> 2 * (m1 * 2 ^ s) + m2" and b2: "2 * (m1 * 2 ^ s) - m2 \<le> 2 * t"
    unfolding r_def t_def using rne_bounds [OF pos] by blast+
  show "2 ^ 52 \<le> rne (m1 * 2 ^ s) m2"
  proof (rule ccontr)
    assume "\<not> 2 ^ 52 \<le> rne (m1 * 2 ^ s) m2"
    then have "r \<le> 2 ^ 52 - 1" by (simp add: r_def)
    then have "t \<le> m2 * (2 ^ 52 - 1)"
      unfolding t_def using pos by (intro mult_left_mono) simp_all
    then have t: "t \<le> 4503599627370495 * m2" by simp
    show False
    proof (cases "m2 \<le> m1")
      case True
      with s b2 have "2 * (m1 * 2 ^ 52) - m2 \<le> 2 * t" by simp
      with t True m1 m2 show False by simp
    next
      case False
      with s b2 have "2 * (m1 * 2 ^ 53) - m2 \<le> 2 * t" by simp
      with t False m1 m2 show False by simp
    qed
  qed
  show "rne (m1 * 2 ^ s) m2 < 2 ^ 53"
  proof (rule ccontr)
    assume "\<not> rne (m1 * 2 ^ s) m2 < 2 ^ 53"
    then have "2 ^ 53 \<le> r" by (simp add: r_def)
    then have "m2 * 2 ^ 53 \<le> t"
      unfolding t_def using pos by (intro mult_left_mono) simp_all
    then have t: "9007199254740992 * m2 \<le> t" by simp
    show False
    proof (cases "m2 \<le> m1")
      case True
      with s b1 have "2 * t \<le> 2 * (m1 * 2 ^ 52) + m2" by simp
      with t True m1 m2 show False by simp
    next
      case False
      with s b1 have "2 * t \<le> 2 * (m1 * 2 ^ 53) + m2" by simp
      with t False m1 m2 show False by simp
    qed
  qed
qed

lemma dbl_div_normal:
  assumes "normal a" "normal b"
  shows "dbl_div a b =
     Inr (Dbl (rne (mant a * 2 ^ (if mant b \<le> mant a then 52 else 53)) (mant b))
              (expo a - expo b - int (if mant b \<le> mant a then 52 else 53)))"
proof -
  define s :: nat where "s = (if mant b \<le> mant a then 52 else 53)"
  have m: "2 ^ 52 \<le> mant a" "mant a < 2 ^ 53" "2 ^ 52 \<le> mant b" "mant b < 2 ^ 53"
    using assms by (simp_all add: normal_def)
  have "rne (mant a * 2 ^ s) (mant b) \<noteq> 2 ^ 53"
    using rne_mantissa(2) [OF m s_def] by simp
  then show ?thesis
    using m unfolding s_def by (cases "mant b \<le> mant a") (simp_all add: dbl_div_def)
qed

lemma ratio_cancel:
  fixes X M P :: rat
  assumes "0 < M" "0 < P" "X / M * P = P"
  shows "X = M"
proof -
  from assms(3) have "(X / M - 1) * P = 0"
    by (simp add: algebra_simps)
  with assms(2) have "X / M - 1 = 0"
    by simp
  with assms(1) show ?thesis
    by simp
qed

lemma abs_half:
  fixes t n d :: int
  assumes "2 * t \<le> 2 * n + d" "2 * n - d \<le> 2 * t"
  shows "2 * \<bar>t - n\<bar> \<le> d"
  using assms by (auto simp: abs_if)

lemma dbl_div_nearest:
  assumes "normal a" "normal b" "dbl_div a b = Inr q"
  shows "normal q"
    and "2 * \<bar>dbl_val q - dbl_val a / dbl_val b\<bar> \<le> 2 powi expo q"
    and "2 * \<bar>dbl_val q - dbl_val a / dbl_val b\<bar> = 2 powi expo q \<Longrightarrow> even (mant q)"
proof -
  define m1 e1 m2 e2 where "m1 = mant a" and "e1 = expo a" and "m2 = mant b" and "e2 = expo b"
  define s :: nat where "s = (if m2 \<le> m1 then 52 else 53)"
  define r where "r = rne (m1 * 2 ^ s) m2"
  define e where "e = e1 - e2 - int s"
  have m: "2 ^ 52 \<le> m1" "m1 < 2 ^ 53" "2 ^ 52 \<le> m2" "m2 < 2 ^ 53"
    using assms(1,2) by (simp_all add: normal_def m1_def m2_def)
  have pos: "0 < m2" using m by simp
  have q: "q = Dbl r e"
    using dbl_div_normal [OF assms(1,2)] assms(3)
    by (simp add: r_def e_def s_def m1_def m2_def e1_def e2_def)
  show "normal q"
    using rne_mantissa [OF m s_def] by (simp add: normal_def q r_def)
  define P :: rat where "P = 2 powi e"
  define M :: rat where "M = of_int m2"
  define N :: rat where "N = of_int (m1 * 2 ^ s)"
  define R :: rat where "R = of_int r"
  have pe: "0 < P" by (simp add: P_def)
  have pm: "0 < M" using pos by (simp add: M_def)
  have pq: "(0::rat) < 2 powi e2" by simp
  have "dbl_val a / dbl_val b = (of_int m1 * 2 powi e1) / (M * 2 powi e2)"
    by (simp only: dbl_val_def m1_def e1_def m2_def e2_def M_def)
  also have "(2::rat) powi e1 = P * 2 ^ s * 2 powi e2"
    unfolding P_def e_def by (rule powi_split)
  also have "(of_int m1 * (P * 2 ^ s * 2 powi e2)) / (M * 2 powi e2) = N / M * P"
    unfolding N_def by (rule quot_rat [OF pm pq])
  finally have quot: "dbl_val a / dbl_val b = N / M * P" .
  have val: "dbl_val q = R * P"
    by (simp add: dbl_val_def q R_def P_def)
  have abs_eq: "2 * \<bar>dbl_val q - dbl_val a / dbl_val b\<bar> = (2 * \<bar>M * R - N\<bar>) / M * P"
    unfolding quot val by (rule half_ulp_rat [OF pm pe])
  have int_eq: "2 * \<bar>M * R - N\<bar> = of_int (2 * \<bar>m2 * r - m1 * 2 ^ s\<bar>)"
    unfolding M_def R_def N_def by simp
  have le: "2 * \<bar>m2 * r - m1 * 2 ^ s\<bar> \<le> m2"
    unfolding r_def by (rule abs_half [OF rne_bounds [OF pos]])
  then have "(of_int (2 * \<bar>m2 * r - m1 * 2 ^ s\<bar>) :: rat) \<le> of_int m2"
    by (simp only: of_int_le_iff)
  then have "(of_int (2 * \<bar>m2 * r - m1 * 2 ^ s\<bar>) :: rat) \<le> M"
    by (simp only: M_def)
  then have "2 * \<bar>M * R - N\<bar> \<le> M"
    by (simp only: int_eq)
  then have "(2 * \<bar>M * R - N\<bar>) / M \<le> 1"
    using pm by (simp only: divide_le_eq_1_pos)
  then have "(2 * \<bar>M * R - N\<bar>) / M * P \<le> 1 * P"
    using pe by (intro mult_right_mono) simp_all
  then have "2 * \<bar>dbl_val q - dbl_val a / dbl_val b\<bar> \<le> P"
    by (simp only: abs_eq mult_1)
  moreover have eP: "2 powi expo q = P"
    by (simp add: q P_def)
  ultimately show "2 * \<bar>dbl_val q - dbl_val a / dbl_val b\<bar> \<le> 2 powi expo q"
    by (simp only: eP)
  assume "2 * \<bar>dbl_val q - dbl_val a / dbl_val b\<bar> = 2 powi expo q"
  then have "(2 * \<bar>M * R - N\<bar>) / M * P = P"
    by (simp only: abs_eq eP)
  then have "2 * \<bar>M * R - N\<bar> = M"
    by (rule ratio_cancel [OF pm pe])
  then have "(of_int (2 * \<bar>m2 * r - m1 * 2 ^ s\<bar>) :: rat) = M"
    by (simp only: int_eq)
  then have "(of_int (2 * \<bar>m2 * r - m1 * 2 ^ s\<bar>) :: rat) = of_int m2"
    by (simp only: M_def)
  then have "2 * \<bar>m2 * r - m1 * 2 ^ s\<bar> = m2"
    by (simp only: of_int_eq_iff)
  then show "even (mant q)"
    using rne_tie_even [OF pos, of "m1 * 2 ^ s"] by (simp add: q r_def)
qed

text \<open>
  Two comparisons of the classifier in terms of the integers divided: the quotient is the
  double 0 exactly when the numerator is 0, and it is the double 0.04 exactly when the
  denominator is 25 times the numerator.
\<close>

lemma rne_scale:
  assumes "0 < c" "0 < d"
  shows "rne (c * n) (c * d) = rne n d"
proof -
  have "(c * n) div (c * d) = n div d"
    using assms by simp
  moreover have "(c * n) mod (c * d) = c * (n mod d)"
    using assms by simp
  moreover have "2 * (c * (n mod d)) < c * d \<longleftrightarrow> 2 * (n mod d) < d"
    using assms(1) by (metis mult.left_commute mult_less_cancel_left_pos)
  moreover have "c * d < 2 * (c * (n mod d)) \<longleftrightarrow> d < 2 * (n mod d)"
    using assms(1) by (metis mult.left_commute mult_less_cancel_left_pos)
  ultimately show ?thesis
    by (simp add: rne_def Let_def)
qed

lemma quotient_zero_iff:
  assumes a: "0 \<le> a" "a < 2 ^ 53" and b: "0 < b" "b < 2 ^ 53"
  shows "dbl_div (dbl_of_int a) (dbl_of_int b) = Inr (dbl_of_int 0) \<longleftrightarrow> a = 0"
proof (cases "a = 0")
  case True
  have "mant (dbl_of_int b) \<noteq> 0"
    using mant_normalize_pos [OF b(1), of 0] by (simp add: dbl_of_int_def)
  with True show ?thesis
    by (simp add: dbl_div_def dbl_of_int_0)
next
  case False
  with a have pa: "0 < a" by simp
  obtain j where j: "dbl_of_int a = Dbl (a * 2 ^ j) (- int j)"
      "2 ^ 52 \<le> a * 2 ^ j" "a * 2 ^ j < 2 ^ 53"
    using dbl_of_int_shape [OF pa a(2)] by blast
  obtain k where k: "dbl_of_int b = Dbl (b * 2 ^ k) (- int k)"
      "2 ^ 52 \<le> b * 2 ^ k" "b * 2 ^ k < 2 ^ 53"
    using dbl_of_int_shape [OF b] by blast
  define m1 where "m1 = a * 2 ^ j"
  define m2 where "m2 = b * 2 ^ k"
  have m1: "2 ^ 52 \<le> m1" "m1 < 2 ^ 53" and m2: "2 ^ 52 \<le> m2" "m2 < 2 ^ 53"
    using j k by (simp_all add: m1_def m2_def)
  have pos: "0 < m2" using m2 by simp
  have "rne (m1 * 2 ^ 52) m2 \<noteq> 0"
  proof
    assume "rne (m1 * 2 ^ 52) m2 = 0"
    with rne_bounds(2) [OF pos, of "m1 * 2 ^ 52"] m1 m2 show False by simp
  qed
  moreover have "rne (m1 * 2 ^ 53) m2 \<noteq> 0"
  proof
    assume "rne (m1 * 2 ^ 53) m2 = 0"
    with rne_bounds(2) [OF pos, of "m1 * 2 ^ 53"] m1 m2 show False by simp
  qed
  ultimately have "dbl_div (dbl_of_int a) (dbl_of_int b) \<noteq> Inr (Dbl 0 0)"
    using m1 m2 unfolding j k
    by (simp add: dbl_div_def m1_def [symmetric] m2_def [symmetric])
  with False show ?thesis by (simp add: dbl_of_int_0)
qed

lemma rne_0_04: "rne 144115188075855872 25 = 5764607523034235"
  by (simp add: rne_def Let_def)

lemma quotient_0_04_iff:
  assumes a: "0 \<le> a" "a < 2 ^ 53" and b: "0 < b" "b < 2 ^ 53"
  shows "dbl_div (dbl_of_int a) (dbl_of_int b) = Inr dbl_0_04 \<longleftrightarrow> 25 * a = b"
proof (cases "a = 0")
  case True
  have "mant (dbl_of_int b) \<noteq> 0"
    using mant_normalize_pos [OF b(1), of 0] by (simp add: dbl_of_int_def)
  with True b show ?thesis
    by (simp add: dbl_div_def dbl_of_int_0 dbl_0_04_def)
next
  case False
  with a have pa: "0 < a" by simp
  obtain j where j: "dbl_of_int a = Dbl (a * 2 ^ j) (- int j)"
      "2 ^ 52 \<le> a * 2 ^ j" "a * 2 ^ j < 2 ^ 53"
    using dbl_of_int_shape [OF pa a(2)] by blast
  obtain k where k: "dbl_of_int b = Dbl (b * 2 ^ k) (- int k)"
      "2 ^ 52 \<le> b * 2 ^ k" "b * 2 ^ k < 2 ^ 53"
    using dbl_of_int_shape [OF b] by blast
  define m1 where "m1 = a * 2 ^ j"
  define m2 where "m2 = b * 2 ^ k"
  define A where "A = a * 2 ^ k"
  have m1: "2 ^ 52 \<le> m1" "m1 < 2 ^ 53" and m2: "2 ^ 52 \<le> m2" "m2 < 2 ^ 53"
    using j k by (simp_all add: m1_def m2_def)
  have pos: "0 < m2" using m2 by simp
  have posA: "0 < A" using pa by (simp add: A_def)
  have resA: "dbl_div (dbl_of_int a) (dbl_of_int b) =
      Inr (if rne (m1 * 2 ^ 52) m2 = 2 ^ 53 then Dbl (2 ^ 52) (int k - int j - 52 + 1)
           else Dbl (rne (m1 * 2 ^ 52) m2) (int k - int j - 52))" if "m2 \<le> m1"
    using that m1 m2 unfolding j k
    by (simp add: dbl_div_def m1_def [symmetric] m2_def [symmetric])
  have resB: "dbl_div (dbl_of_int a) (dbl_of_int b) =
      Inr (if rne (m1 * 2 ^ 53) m2 = 2 ^ 53 then Dbl (2 ^ 52) (int k - int j - 53 + 1)
           else Dbl (rne (m1 * 2 ^ 53) m2) (int k - int j - 53))" if "\<not> m2 \<le> m1"
    using that m1 m2 unfolding j k
    by (simp add: dbl_div_def m1_def [symmetric] m2_def [symmetric])
  show ?thesis
  proof
    assume eq: "dbl_div (dbl_of_int a) (dbl_of_int b) = Inr dbl_0_04"
    have "25 * A = m2"
    proof (cases "m2 \<le> m1")
      case True
      define r where "r = rne (m1 * 2 ^ 52) m2"
      from eq resA [OF True] have r: "r = 5764607523034235" and e: "int j = int k + 5"
        by (simp_all add: dbl_0_04_def r_def split: if_splits)
      from e have "j = k + 5" by simp
      then have m1A: "m1 = 32 * A"
        by (simp add: m1_def A_def power_add)
      have b1: "2 * (m2 * r) \<le> 2 * (m1 * 2 ^ 52) + m2"
        and b2: "2 * (m1 * 2 ^ 52) - m2 \<le> 2 * (m2 * r)"
        unfolding r_def using rne_bounds [OF pos] by blast+
      from b1 b2 m2 show ?thesis
        unfolding r m1A by simp
    next
      case False
      define r where "r = rne (m1 * 2 ^ 53) m2"
      from eq resB [OF False] have r: "r = 5764607523034235" and e: "int j = int k + 4"
        by (simp_all add: dbl_0_04_def r_def split: if_splits)
      from e have "j = k + 4" by simp
      then have m1A: "m1 = 16 * A"
        by (simp add: m1_def A_def power_add)
      have b1: "2 * (m2 * r) \<le> 2 * (m1 * 2 ^ 53) + m2"
        and b2: "2 * (m1 * 2 ^ 53) - m2 \<le> 2 * (m2 * r)"
        unfolding r_def using rne_bounds [OF pos] by blast+
      from b1 b2 m2 show ?thesis
        unfolding r m1A by simp
    qed
    then have "(25 * a) * 2 ^ k = b * 2 ^ k"
      by (simp add: A_def m2_def)
    then show "25 * a = b" by simp
  next
    assume ab: "25 * a = b"
    then have m2A: "m2 = 25 * A"
      by (simp add: m2_def A_def)
    have "k \<le> j"
    proof (rule ccontr)
      assume "\<not> k \<le> j"
      then obtain d where "k = j + Suc d"
        by (metis add_Suc_right less_imp_Suc_add not_le)
      then have "A = 2 * 2 ^ d * m1"
        by (simp add: A_def m1_def power_add)
      moreover have "(1::int) \<le> 2 ^ d" by simp
      ultimately have "2 * m1 \<le> A"
        using m1 by (simp add: mult_le_cancel_right1 mult.assoc)
      with m1 m2 m2A show False by simp
    qed
    then obtain d where d: "j = k + d"
      using le_Suc_ex by blast
    then have m1A: "m1 = 2 ^ d * A"
      by (simp add: m1_def A_def power_add)
    have "d < 6"
    proof (rule ccontr)
      assume "\<not> d < 6"
      then have "(2::int) ^ 6 \<le> 2 ^ d"
        by (intro power_increasing) simp_all
      then have "64 * A \<le> 2 ^ d * A"
        using posA by simp
      with m1 m2 m1A m2A show False by simp
    qed
    moreover have "3 < d"
    proof (rule ccontr)
      assume "\<not> 3 < d"
      then have "(2::int) ^ d \<le> 2 ^ 3"
        by (intro power_increasing) simp_all
      then have "2 ^ d * A \<le> 8 * A"
        using posA by simp
      with m1 m2 m1A m2A show False by simp
    qed
    ultimately consider "d = 4" | "d = 5" by linarith
    then show "dbl_div (dbl_of_int a) (dbl_of_int b) = Inr dbl_0_04"
    proof cases
      case 1
      then have m1': "m1 = 16 * A" using m1A by simp
      with m2A posA have lt: "\<not> m2 \<le> m1" by simp
      have "rne (m1 * 2 ^ 53) m2 = rne (16 * 2 ^ 53) 25"
        using rne_scale [OF posA, of 25 "16 * 2 ^ 53"] by (simp add: m1' m2A mult.commute)
      then show ?thesis
        using resB [OF lt] d 1 by (simp add: rne_0_04 dbl_0_04_def)
    next
      case 2
      then have m1': "m1 = 32 * A" using m1A by simp
      with m2A posA have ge: "m2 \<le> m1" by simp
      have "rne (m1 * 2 ^ 52) m2 = rne (32 * 2 ^ 52) 25"
        using rne_scale [OF posA, of 25 "32 * 2 ^ 52"] by (simp add: m1' m2A mult.commute)
      then show ?thesis
        using resA [OF ge] d 2 by (simp add: rne_0_04 dbl_0_04_def)
    qed
  qed
qed

section \<open>What the loops of the classifier compute\<close>

text \<open>
  The loop functions are unfolded one iteration at a time in the proofs below.
\<close>

declare diag_cols.simps [simp del] diag_rows.simps [simp del] occ_cols.simps [simp del]
  occ_rows.simps [simp del] max_cols.simps [simp del]

lemma pixel_index_in_bounds:
  assumes "holds_bitmap pixelData w h" "0 \<le> x" "x < w" "0 \<le> y" "y < h"
  shows "pixel_index y w x < length pixelData"
proof -
  have "nat y * nat w + nat x < nat y * nat w + nat w"
    using assms by simp
  also have "\<dots> = (nat y + 1) * nat w"
    by simp
  also have "\<dots> \<le> nat h * nat w"
    using assms by (intro mult_le_mono1) simp
  finally have "(nat y * nat w + nat x) * 4 < nat h * nat w * 4"
    by simp
  also have "nat h * nat w * 4 = nat (4 * w * h)"
    using assms by (simp add: nat_mult_distrib mult.commute)
  finally show ?thesis
    using assms(1) by (simp add: pixel_index_def holds_bitmap_def)
qed

lemma read_pixel:
  assumes "holds_bitmap pixelData w h" "0 \<le> x" "x < w" "0 \<le> y" "y < h"
  shows "read_u8 pixelData (pixel_index y w x) = Inr (pixelData ! pixel_index y w x)"
    and "opaque pixelData w (x, y) = (10 < pixelData ! pixel_index y w x)"
  using pixel_index_in_bounds [OF assms] by (simp_all add: read_u8_def opaque_def)

lemma cnt_Nil [simp]: "cnt P [] = 0"
  by (simp add: cnt_def)

lemma cnt_Cons [simp]: "cnt P (x # xs) = (if P x then 1 else 0) + cnt P xs"
  by (simp add: cnt_def)

lemma cnt_append [simp]: "cnt P (xs @ ys) = cnt P xs + cnt P ys"
  by (simp add: cnt_def)

lemma cnt_nonneg [simp]: "0 \<le> cnt P xs"
  by (simp add: cnt_def)

lemma diag_cols_run:
  assumes "holds_bitmap pixelData w h" "0 \<le> y" "y < h"
  shows "0 \<le> x \<Longrightarrow>
    diag_cols pixelData w y x (d1, d2, t) =
      Inr (d1 + cnt (\<lambda>p. opaque pixelData w p \<and> fst p = snd p) (map (\<lambda>x. (x, y)) [x..w - 1]),
           d2 + cnt (\<lambda>p. opaque pixelData w p \<and> fst p = w - snd p - 1) (map (\<lambda>x. (x, y)) [x..w - 1]),
           t + cnt (opaque pixelData w) (map (\<lambda>x. (x, y)) [x..w - 1]))"
proof (induction "nat (w - x)" arbitrary: x d1 d2 t)
  case 0
  then show ?case by (subst diag_cols.simps) simp
next
  case (Suc n)
  then have lt: "x < w" and n: "n = nat (w - (x + 1))" and nn: "0 \<le> x + 1"
    by simp_all
  have up: "[x..w - 1] = x # [x + 1..w - 1]"
    using lt by (simp add: upto_rec1)
  note rd = read_pixel [OF assms(1) Suc.prems lt assms(2,3)]
  show ?case
    using lt rd up by (subst diag_cols.simps) (simp add: Suc.hyps(1) [OF n nn])
qed

lemma diag_rows_run:
  assumes "holds_bitmap pixelData w h"
  shows "0 \<le> y \<Longrightarrow>
    diag_rows pixelData w h y (d1, d2, t) =
      Inr (d1 + cnt (\<lambda>p. opaque pixelData w p \<and> fst p = snd p)
                  (concat (map (row_pixels w) [y..h - 1])),
           d2 + cnt (\<lambda>p. opaque pixelData w p \<and> fst p = w - snd p - 1)
                  (concat (map (row_pixels w) [y..h - 1])),
           t + cnt (opaque pixelData w) (concat (map (row_pixels w) [y..h - 1])))"
proof (induction "nat (h - y)" arbitrary: y d1 d2 t)
  case 0
  then show ?case by (subst diag_rows.simps) simp
next
  case (Suc n)
  then have lt: "y < h" and n: "n = nat (h - (y + 1))" and nn: "0 \<le> y + 1"
    by simp_all
  have up: "[y..h - 1] = y # [y + 1..h - 1]"
    using lt by (simp add: upto_rec1)
  have row: "diag_cols pixelData w y 0 (d1, d2, t) =
      Inr (d1 + cnt (\<lambda>p. opaque pixelData w p \<and> fst p = snd p) (row_pixels w y),
           d2 + cnt (\<lambda>p. opaque pixelData w p \<and> fst p = w - snd p - 1) (row_pixels w y),
           t + cnt (opaque pixelData w) (row_pixels w y))"
    using diag_cols_run [OF assms Suc.prems lt, of 0] by (simp add: row_pixels_def)
  show ?case
    using lt by (subst diag_rows.simps) (simp add: row up Suc.hyps(1) [OF n nn])
qed

lemma diag_rows_counts:
  assumes "holds_bitmap pixelData w h"
  shows "diag_rows pixelData w h 0 (0, 0, 0) =
     Inr (main_diag_opaque pixelData w h, anti_diag_opaque pixelData w h,
          total_opaque pixelData w h)"
  using diag_rows_run [OF assms, of 0 0 0 0]
  by (simp add: main_diag_opaque_def anti_diag_opaque_def total_opaque_def all_pixels_def)


lemma length_upto_0 [simp]: "length [0..n - 1] = nat n"
  by simp

lemma nth_upto_0:
  "k < nat n \<Longrightarrow> [0..n - 1] ! k = int k"
  by (simp add: nth_upto)

lemma in_upto_0: "j \<in> set [0..n - 1] \<longleftrightarrow> 0 \<le> j \<and> j < n"
  by auto

lemma map_nth_upto:
  "length xs = nat n \<Longrightarrow> map (\<lambda>j. xs ! nat j) [0..n - 1] = xs"
  by (rule nth_equalityI) (simp_all add: nth_upto)

lemma occ_cols_run:
  assumes "holds_bitmap pixelData w h" "0 \<le> y" "y < h"
  shows "0 \<le> x \<Longrightarrow> length rc = nat h \<Longrightarrow> length cc = nat w \<Longrightarrow>
    occ_cols pixelData w y x (rc, cc) =
      Inr (rc[nat y := rc ! nat y + cnt (opaque pixelData w) (map (\<lambda>x. (x, y)) [x..w - 1])],
           map (\<lambda>j. cc ! nat j + (if x \<le> j \<and> opaque pixelData w (j, y) then 1 else 0))
             [0..w - 1])"
proof (induction "nat (w - x)" arbitrary: x rc cc)
  case 0
  then have "map (\<lambda>j. cc ! nat j + (if x \<le> j \<and> opaque pixelData w (j, y) then 1 else 0))
      [0..w - 1] = map (\<lambda>j. cc ! nat j) [0..w - 1]"
    by (intro map_cong) auto
  with 0 show ?case
    by (subst occ_cols.simps) (simp add: map_nth_upto)
next
  case (Suc n)
  then have lt: "x < w" and n: "n = nat (w - (x + 1))" and nn: "0 \<le> x + 1"
    by simp_all
  have up: "[x..w - 1] = x # [x + 1..w - 1]"
    using lt by (simp add: upto_rec1)
  note rd = read_pixel [OF assms(1) Suc.prems(1) lt assms(2,3)]
  have yl: "nat y < length rc" and xl: "nat x < length cc"
    using Suc.prems lt assms by simp_all
  show ?case
  proof (cases "opaque pixelData w (x, y)")
    case True
    let ?rc = "rc[nat y := rc ! nat y + 1]" and ?cc = "cc[nat x := cc ! nat x + 1]"
    have step: "occ_cols pixelData w y x (rc, cc) = occ_cols pixelData w y (x + 1) (?rc, ?cc)"
      using lt rd True by (subst occ_cols.simps) simp
    have cols: "map (\<lambda>j. ?cc ! nat j + (if x + 1 \<le> j \<and> opaque pixelData w (j, y) then 1 else 0))
        [0..w - 1]
      = map (\<lambda>j. cc ! nat j + (if x \<le> j \<and> opaque pixelData w (j, y) then 1 else 0)) [0..w - 1]"
    proof (intro map_cong refl)
      fix j assume "j \<in> set [0..w - 1]"
      then have j: "0 \<le> j" "j < w" by auto
      show "?cc ! nat j + (if x + 1 \<le> j \<and> opaque pixelData w (j, y) then 1 else 0)
          = cc ! nat j + (if x \<le> j \<and> opaque pixelData w (j, y) then 1 else 0)"
      proof (cases "j = x")
        case True
        with xl \<open>opaque pixelData w (x, y)\<close> show ?thesis by simp
      next
        case False
        with j Suc.prems(1) have "nat j \<noteq> nat x" by simp
        with False show ?thesis by (simp add: nth_list_update)
      qed
    qed
    show ?thesis
      unfolding step
      using Suc.hyps(1) [OF n nn, of ?rc ?cc] Suc.prems yl True
      by (simp add: cols up add.assoc)
  next
    case False
    have step: "occ_cols pixelData w y x (rc, cc) = occ_cols pixelData w y (x + 1) (rc, cc)"
      using lt rd False by (subst occ_cols.simps) simp
    have cols: "map (\<lambda>j. cc ! nat j + (if x + 1 \<le> j \<and> opaque pixelData w (j, y) then 1 else 0))
        [0..w - 1]
      = map (\<lambda>j. cc ! nat j + (if x \<le> j \<and> opaque pixelData w (j, y) then 1 else 0)) [0..w - 1]"
    proof (intro map_cong refl)
      fix j assume "j \<in> set [0..w - 1]"
      show "cc ! nat j + (if x + 1 \<le> j \<and> opaque pixelData w (j, y) then 1 else 0)
          = cc ! nat j + (if x \<le> j \<and> opaque pixelData w (j, y) then 1 else 0)"
        using False by (cases "j = x") auto
    qed
    show ?thesis
      unfolding step
      using Suc.hyps(1) [OF n nn, of rc cc] Suc.prems False
      by (simp add: cols up)
  qed
qed

lemma occ_row:
  assumes "holds_bitmap pixelData w h" "0 \<le> y" "y < h" "length rc = nat h" "length cc = nat w"
  shows "occ_cols pixelData w y 0 (rc, cc) =
      Inr (rc[nat y := rc ! nat y + row_count pixelData w y],
           map (\<lambda>j. cc ! nat j + (if opaque pixelData w (j, y) then 1 else 0)) [0..w - 1])"
proof -
  have "map (\<lambda>j. cc ! nat j + (if 0 \<le> j \<and> opaque pixelData w (j, y) then 1 else 0)) [0..w - 1]
      = map (\<lambda>j. cc ! nat j + (if opaque pixelData w (j, y) then 1 else 0)) [0..w - 1]"
    by (intro map_cong) auto
  then show ?thesis
    using occ_cols_run [OF assms(1-3) _ assms(4,5), of 0]
    by (simp add: row_count_def row_pixels_def)
qed


lemma occ_rows_run:
  assumes "holds_bitmap pixelData w h"
  shows "0 \<le> y \<Longrightarrow> length rc = nat h \<Longrightarrow> length cc = nat w \<Longrightarrow>
    occ_rows pixelData w h y (rc, cc, m) =
      Inr (map (\<lambda>i. rc ! nat i + (if y \<le> i then row_count pixelData w i else 0)) [0..h - 1],
           map (\<lambda>j. cc ! nat j + cnt (opaque pixelData w) (map (\<lambda>i. (j, i)) [y..h - 1]))
             [0..w - 1],
           fold max (map (\<lambda>i. rc ! nat i + row_count pixelData w i) [y..h - 1]) m)"
proof (induction "nat (h - y)" arbitrary: y rc cc m)
  case 0
  then have "map (\<lambda>i. rc ! nat i + (if y \<le> i then row_count pixelData w i else 0)) [0..h - 1]
      = map (\<lambda>i. rc ! nat i) [0..h - 1]"
    by (intro map_cong) auto
  with 0 show ?case
    by (subst occ_rows.simps) (simp add: map_nth_upto)
next
  case (Suc n)
  then have lt: "y < h" and n: "n = nat (h - (y + 1))" and nn: "0 \<le> y + 1"
    by simp_all
  have up: "[y..h - 1] = y # [y + 1..h - 1]"
    using lt by (simp add: upto_rec1)
  let ?rc = "rc[nat y := rc ! nat y + row_count pixelData w y]"
  let ?cc = "map (\<lambda>j. cc ! nat j + (if opaque pixelData w (j, y) then 1 else 0)) [0..w - 1]"
  let ?m = "max (rc ! nat y + row_count pixelData w y) m"
  have yl: "nat y < length rc"
    using Suc.prems lt by simp
  have len: "length ?rc = nat h" "length ?cc = nat w"
    using Suc.prems by simp_all
  have step: "occ_rows pixelData w h y (rc, cc, m) = occ_rows pixelData w h (y + 1) (?rc, ?cc, ?m)"
    using lt yl occ_row [OF assms Suc.prems(1) lt Suc.prems(2,3)]
    by (subst occ_rows.simps) (simp add: max_def)
  have rows: "map (\<lambda>i. ?rc ! nat i + (if y + 1 \<le> i then row_count pixelData w i else 0)) [0..h - 1]
      = map (\<lambda>i. rc ! nat i + (if y \<le> i then row_count pixelData w i else 0)) [0..h - 1]"
  proof (intro map_cong refl)
    fix i assume "i \<in> set [0..h - 1]"
    then have i: "0 \<le> i" "i < h" by auto
    show "?rc ! nat i + (if y + 1 \<le> i then row_count pixelData w i else 0)
        = rc ! nat i + (if y \<le> i then row_count pixelData w i else 0)"
    proof (cases "i = y")
      case True
      with yl show ?thesis by simp
    next
      case False
      with i Suc.prems(1) have "nat i \<noteq> nat y" by simp
      with False show ?thesis by (simp add: nth_list_update)
    qed
  qed
  have cols: "map (\<lambda>j. ?cc ! nat j + cnt (opaque pixelData w) (map (\<lambda>i. (j, i)) [y + 1..h - 1]))
        [0..w - 1]
      = map (\<lambda>j. cc ! nat j + cnt (opaque pixelData w) (map (\<lambda>i. (j, i)) [y..h - 1])) [0..w - 1]"
  proof (intro map_cong refl)
    fix j assume "j \<in> set [0..w - 1]"
    then have j: "0 \<le> j" "j < w" by auto
    then have "?cc ! nat j = cc ! nat j + (if opaque pixelData w (j, y) then 1 else 0)"
      by (simp add: nth_upto)
    then show "?cc ! nat j + cnt (opaque pixelData w) (map (\<lambda>i. (j, i)) [y + 1..h - 1])
        = cc ! nat j + cnt (opaque pixelData w) (map (\<lambda>i. (j, i)) [y..h - 1])"
      by (simp add: up)
  qed
  have maxs: "map (\<lambda>i. ?rc ! nat i + row_count pixelData w i) [y + 1..h - 1]
      = map (\<lambda>i. rc ! nat i + row_count pixelData w i) [y + 1..h - 1]"
  proof (intro map_cong refl)
    fix i assume "i \<in> set [y + 1..h - 1]"
    then have "y + 1 \<le> i" by simp
    with Suc.prems(1) have "nat i \<noteq> nat y" by linarith
    then show "?rc ! nat i + row_count pixelData w i = rc ! nat i + row_count pixelData w i"
      by (simp add: nth_list_update)
  qed
  show ?case
    unfolding step Suc.hyps(1) [OF n nn len] rows cols maxs
    by (simp add: up)
qed

lemma max_cols_run:
  "max_cols cc w x m = fold max (map (\<lambda>j. cc ! nat j) [x..w - 1]) m"
proof (induction "nat (w - x)" arbitrary: x m)
  case 0
  then show ?case by (subst max_cols.simps) simp
next
  case (Suc n)
  then have lt: "x < w" and n: "n = nat (w - (x + 1))"
    by simp_all
  have up: "[x..w - 1] = x # [x + 1..w - 1]"
    using lt by (simp add: upto_rec1)
  show ?case
    using lt by (subst max_cols.simps) (simp add: Suc.hyps(1) [OF n] up max_def)
qed

lemma fold_max_0:
  assumes "xs \<noteq> []" "\<forall>v \<in> set xs. (0::int) \<le> v"
  shows "fold max xs 0 = Max (set xs)"
proof -
  have "fold max xs 0 = Max (set (0 # xs))"
    by (simp only: Max.set_eq_fold)
  also have "\<dots> = max 0 (Max (set xs))"
    using assms(1) by simp
  also have "\<dots> = Max (set xs)"
    using assms by (simp add: max_def Max_ge_iff)
  finally show ?thesis .
qed

lemma occ_rows_counts:
  assumes "holds_bitmap pixelData w h" "0 < h"
  shows "occ_rows pixelData w h 0 (replicate (nat h) 0, replicate (nat w) 0, 0) =
     Inr (map (row_count pixelData w) [0..h - 1],
          map (col_count pixelData w h) [0..w - 1],
          maxRow pixelData w h)"
proof -
  have rows: "map (\<lambda>i. replicate (nat h) (0::int) ! nat i
                 + (if 0 \<le> i then row_count pixelData w i else 0)) [0..h - 1]
      = map (row_count pixelData w) [0..h - 1]"
    by (intro map_cong) auto
  have cols: "map (\<lambda>j. replicate (nat w) (0::int) ! nat j
                 + cnt (opaque pixelData w) (map (\<lambda>i. (j, i)) [0..h - 1])) [0..w - 1]
      = map (col_count pixelData w h) [0..w - 1]"
    by (intro map_cong) (auto simp: col_count_def col_pixels_def)
  have maxs: "map (\<lambda>i. replicate (nat h) (0::int) ! nat i + row_count pixelData w i) [0..h - 1]
      = map (row_count pixelData w) [0..h - 1]"
    by (intro map_cong) auto
  have "[0..h - 1] \<noteq> []"
    using assms(2) by (simp add: upto_rec1)
  then have "fold max (map (row_count pixelData w) [0..h - 1]) 0 = maxRow pixelData w h"
    unfolding maxRow_def by (intro fold_max_0) (auto simp: row_count_def)
  then show ?thesis
    using occ_rows_run [OF assms(1), of 0 "replicate (nat h) 0" "replicate (nat w) 0" 0]
    by (simp add: rows cols maxs)
qed

lemma max_cols_maxCol:
  assumes "0 < w"
  shows "max_cols (map (col_count pixelData w h) [0..w - 1]) w 0 0 = maxCol pixelData w h"
proof -
  let ?cc = "map (col_count pixelData w h) [0..w - 1]"
  have "[0..w - 1] \<noteq> []"
    using assms by (simp add: upto_rec1)
  then have m: "fold max ?cc 0 = maxCol pixelData w h"
    unfolding maxCol_def by (intro fold_max_0) (auto simp: col_count_def)
  have "max_cols ?cc w 0 0 = fold max (map (\<lambda>j. ?cc ! nat j) [0..w - 1]) 0"
    by (rule max_cols_run)
  also have "map (\<lambda>j. ?cc ! nat j) [0..w - 1] = ?cc"
    by (intro map_nth_upto) simp
  finally show ?thesis
    using m by simp
qed

lemma determineResizeDirection_eq:
  assumes "holds_bitmap pixelData w h" "0 < w" "0 < h"
  shows "determineResizeDirection pixelData w h =
     (case diagonal_test (main_diag_opaque pixelData w h) (anti_diag_opaque pixelData w h)
             (total_opaque pixelData w h) of
        Inl f \<Rightarrow> Inl f
      | Inr True \<Rightarrow> Inr DIAGONAL_RESIZE
      | Inr False \<Rightarrow>
          Inr (occupancy_switch (maxRow pixelData w h) (maxCol pixelData w h)))"
  by (simp add: determineResizeDirection_def diag_rows_counts [OF assms(1)]
      occ_rows_counts [OF assms(1,3)] max_cols_maxCol [OF assms(2)]
      split: sum.splits bool.splits)

section \<open>The classifier: what it returns\<close>

text \<open>
  Two facts shared by the results below: the diagonal test never faults, and on a buffer
  that holds the bitmap the classifier returns the diagonal category when the diagonal
  signature holds and the result of the switch on the largest row count otherwise.
\<close>


lemma diagonal_test_eq:
  "diagonal_test d1 d2 t =
     Inr (0 < t
          \<and> dbl_div (dbl_of_int d1) (dbl_of_int t) = Inr (dbl_of_int 0)
          \<and> dbl_div (dbl_of_int d2) (dbl_of_int t) = Inr dbl_0_04)"
proof (cases "0 < t")
  case True
  obtain q1 q2 where "dbl_div (dbl_of_int d1) (dbl_of_int t) = Inr q1"
      "dbl_div (dbl_of_int d2) (dbl_of_int t) = Inr q2"
    using dbl_div_defined [OF True] by blast
  with True show ?thesis by (simp add: diagonal_test_def)
next
  case False
  then show ?thesis by (simp add: diagonal_test_def)
qed

lemma classifier_eq:
  assumes "holds_bitmap pixelData w h" "0 < w" "0 < h"
  shows "determineResizeDirection pixelData w h =
     Inr (if diagonal_signature pixelData w h then DIAGONAL_RESIZE
          else occupancy_switch (maxRow pixelData w h) (maxCol pixelData w h))"
  unfolding determineResizeDirection_eq [OF assms] diagonal_test_eq diagonal_signature_def
  by (simp split: bool.splits)

text \<open>
  In integers, for counts below \<open>2 ^ 53\<close>: the diagonal signature holds exactly when
  some pixel is opaque, none of the opaque pixels is on the main diagonal and one in 25 of
  them is on the anti-diagonal.
\<close>

lemma cnt_conj_le: "cnt (\<lambda>p. P p \<and> Q p) xs \<le> cnt P xs"
  by (induction xs) auto

lemma diagonal_signature_iff:
  assumes "total_opaque pixelData w h < 2 ^ 53"
  shows "diagonal_signature pixelData w h \<longleftrightarrow>
     0 < total_opaque pixelData w h
     \<and> main_diag_opaque pixelData w h = 0
     \<and> 25 * anti_diag_opaque pixelData w h = total_opaque pixelData w h"
proof (cases "0 < total_opaque pixelData w h")
  case False
  then show ?thesis by (simp add: diagonal_signature_def)
next
  case True
  have d1: "0 \<le> main_diag_opaque pixelData w h" "main_diag_opaque pixelData w h < 2 ^ 53"
    using cnt_conj_le [of "opaque pixelData w" "\<lambda>p. fst p = snd p" "all_pixels w h"] assms
    by (simp_all add: main_diag_opaque_def total_opaque_def)
  have d2: "0 \<le> anti_diag_opaque pixelData w h" "anti_diag_opaque pixelData w h < 2 ^ 53"
    using cnt_conj_le [of "opaque pixelData w" "\<lambda>p. fst p = w - snd p - 1" "all_pixels w h"] assms
    by (simp_all add: anti_diag_opaque_def total_opaque_def)
  show ?thesis
    unfolding diagonal_signature_def
    using quotient_zero_iff [OF d1 True assms] quotient_0_04_iff [OF d2 True assms] True
    by simp
qed

lemma exact_four_percent_is_diagonal:
  assumes "0 < w" "0 < h" "holds_bitmap pixelData w h"
    and "total_opaque pixelData w h < 2 ^ 53"
    and "0 < total_opaque pixelData w h"
    and "main_diag_opaque pixelData w h = 0"
    and "25 * anti_diag_opaque pixelData w h = total_opaque pixelData w h"
  shows "determineResizeDirection pixelData w h = Inr DIAGONAL_RESIZE"
  using assms by (simp add: classifier_eq diagonal_signature_iff)

lemma cnt_none: "(\<forall>p \<in> set xs. \<not> P p) \<Longrightarrow> cnt P xs = 0"
  by (simp add: cnt_def filter_False)

lemma set_all_pixels:
  "p \<in> set (all_pixels w h) \<longleftrightarrow> 0 \<le> fst p \<and> fst p < w \<and> 0 \<le> snd p \<and> snd p < h"
  by (cases p) (force simp: all_pixels_def row_pixels_def)

lemma Max_const_0:
  assumes "xs \<noteq> []" "\<forall>x \<in> set xs. f x = (0::int)"
  shows "Max (set (map f xs)) = 0"
proof -
  have "set (map f xs) = {0}"
    using assms by (cases xs) auto
  then show ?thesis by simp
qed

lemma transparent_not_opaque:
  assumes "holds_bitmap pixelData w h" "\<forall>i < nat (w * h). pixelData ! (4 * i) \<le> 10"
    and "0 \<le> x" "x < w" "0 \<le> y" "y < h"
  shows "\<not> opaque pixelData w (x, y)"
proof -
  have "nat y * nat w + nat x < nat y * nat w + nat w"
    using assms by simp
  also have "\<dots> = (nat y + 1) * nat w"
    by simp
  also have "\<dots> \<le> nat h * nat w"
    using assms by (intro mult_le_mono1) simp
  also have "\<dots> = nat (w * h)"
    using assms by (simp add: nat_mult_distrib mult.commute)
  finally have "pixelData ! (4 * (nat y * nat w + nat x)) \<le> 10"
    using assms(2) by blast
  then show ?thesis
    using read_pixel(2) [OF assms(1,3-6)] by (simp add: pixel_index_def mult.commute)
qed

text \<open>
  C1. For a square buffer of positive size that holds the bitmap and does not match the
  diagonal signature, \<open>determineResizeDirection\<close> classifies by exact match on
  \<open>maxRow\<close>, the largest number of opaque pixels in a row: 6 gives
  \<open>VERTICAL_RESIZE\<close>, 8 and 10 give \<open>HORIZONTAL_RESIZE\<close>, 14 gives \<open>POINTER\<close>
  when the largest number of opaque pixels in a column is 13 and \<open>VERTICAL_RESIZE\<close>
  otherwise, and every other value gives \<open>OTHER\<close>.
\<close>

theorem occupancy_classification:
  assumes "0 < w" "holds_bitmap pixelData w w" "\<not> diagonal_signature pixelData w w"
  shows "determineResizeDirection pixelData w w =
     Inr (if maxRow pixelData w w = 6 then VERTICAL_RESIZE
          else if maxRow pixelData w w = 8 then HORIZONTAL_RESIZE
          else if maxRow pixelData w w = 10 then HORIZONTAL_RESIZE
          else if maxRow pixelData w w = 14 then
            (if maxCol pixelData w w = 13 then POINTER else VERTICAL_RESIZE)
          else OTHER)"
  using assms by (simp add: classifier_eq occupancy_switch_def)

theorem occupancy_classification_witness:
  "0 < (6::int)
   \<and> holds_bitmap (concat (replicate 36 [255, 0, 0, 0])) 6 6
   \<and> \<not> diagonal_signature (concat (replicate 36 [255, 0, 0, 0])) 6 6
   \<and> maxRow (concat (replicate 36 [255, 0, 0, 0])) 6 6 = 6
   \<and> determineResizeDirection (concat (replicate 36 [255, 0, 0, 0])) 6 6 = Inr VERTICAL_RESIZE"
proof -
  let ?b = "concat (replicate 36 [255, 0, 0, 0]) :: u8 list"
  have h1: "holds_bitmap ?b 6 6" by code_simp
  have h2: "\<not> diagonal_signature ?b 6 6" by code_simp
  have m: "maxRow ?b 6 6 = 6" by code_simp
  have "0 < (6::int)" by simp
  from occupancy_classification [OF this h1 h2] h1 h2 m show ?thesis by simp
qed

text \<open>
  C2. For a square buffer with at least one opaque pixel, if the double-precision
  fraction of opaque pixels on the main diagonal equals 0 and the fraction on the
  anti-diagonal equals the double 0.04, both compared by equality of doubles,
  \<open>determineResizeDirection\<close> returns \<open>DIAGONAL_RESIZE\<close>, whatever the row and
  column counts are. The sample bitmap has \<open>maxRow = 6\<close>, which the switch alone would
  classify as \<open>VERTICAL_RESIZE\<close>.
\<close>

theorem diagonal_signature_wins:
  assumes "0 < w" "holds_bitmap pixelData w w"
    and "0 < total_opaque pixelData w w"
    and "dbl_div (dbl_of_int (main_diag_opaque pixelData w w))
           (dbl_of_int (total_opaque pixelData w w)) = Inr (dbl_of_int 0)"
    and "dbl_div (dbl_of_int (anti_diag_opaque pixelData w w))
           (dbl_of_int (total_opaque pixelData w w)) = Inr dbl_0_04"
  shows "determineResizeDirection pixelData w w = Inr DIAGONAL_RESIZE"
  using assms by (simp add: classifier_eq diagonal_signature_def)

theorem diagonal_signature_wins_witness:
  "0 < (8::int)
   \<and> holds_bitmap sample_diagonal 8 8
   \<and> 0 < total_opaque sample_diagonal 8 8
   \<and> dbl_div (dbl_of_int (main_diag_opaque sample_diagonal 8 8))
        (dbl_of_int (total_opaque sample_diagonal 8 8)) = Inr (dbl_of_int 0)
   \<and> dbl_div (dbl_of_int (anti_diag_opaque sample_diagonal 8 8))
        (dbl_of_int (total_opaque sample_diagonal 8 8)) = Inr dbl_0_04
   \<and> maxRow sample_diagonal 8 8 = 6
   \<and> determineResizeDirection sample_diagonal 8 8 = Inr DIAGONAL_RESIZE"
proof -
  have h0: "0 < (8::int)" by simp
  have h1: "holds_bitmap sample_diagonal 8 8" by code_simp
  have t: "total_opaque sample_diagonal 8 8 = 25" by code_simp
  have d1: "main_diag_opaque sample_diagonal 8 8 = 0" by code_simp
  have d2: "anti_diag_opaque sample_diagonal 8 8 = 1" by code_simp
  have m: "maxRow sample_diagonal 8 8 = 6" by code_simp
  have h2: "0 < total_opaque sample_diagonal 8 8" by (simp add: t)
  have h3: "dbl_div (dbl_of_int (main_diag_opaque sample_diagonal 8 8))
        (dbl_of_int (total_opaque sample_diagonal 8 8)) = Inr (dbl_of_int 0)"
    unfolding t d1 by code_simp
  have h4: "dbl_div (dbl_of_int (anti_diag_opaque sample_diagonal 8 8))
        (dbl_of_int (total_opaque sample_diagonal 8 8)) = Inr dbl_0_04"
    unfolding t d2 by code_simp
  from diagonal_signature_wins [OF h0 h1 h2 h3 h4] h1 h2 h3 h4 m show ?thesis by simp
qed

text \<open>
  C6. For a square buffer in which no pixel's first byte exceeds 10 (every such byte
  being zero is a case of it), the opaque total is 0, the first loop nest ends with all
  three counters at 0, the diagonal test answers without dividing (the division it guards
  would be a division by zero), and \<open>determineResizeDirection\<close> returns \<open>OTHER\<close>.
\<close>

theorem transparent_bitmap_is_OTHER:
  assumes "0 < w" "holds_bitmap pixelData w w"
    and "\<forall>i < nat (w * w). pixelData ! (4 * i) \<le> 10"
  shows "total_opaque pixelData w w = 0
     \<and> diag_rows pixelData w w 0 (0, 0, 0) = Inr (0, 0, 0)
     \<and> diagonal_test 0 0 0 = Inr False
     \<and> dbl_div (dbl_of_int 0) (dbl_of_int (total_opaque pixelData w w)) = Inl DivisionByZero
     \<and> determineResizeDirection pixelData w w = Inr OTHER"
proof -
  have no: "\<not> opaque pixelData w (x, y)" if "0 \<le> x" "x < w" "0 \<le> y" "y < w" for x y
    using transparent_not_opaque [OF assms(2,3) that] .
  have t: "total_opaque pixelData w w = 0"
    unfolding total_opaque_def by (intro cnt_none) (auto simp: set_all_pixels no)
  have d1: "main_diag_opaque pixelData w w = 0"
    unfolding main_diag_opaque_def by (intro cnt_none) (auto simp: set_all_pixels no)
  have d2: "anti_diag_opaque pixelData w w = 0"
    unfolding anti_diag_opaque_def by (intro cnt_none) (auto simp: set_all_pixels no)
  have ne: "[0..w - 1] \<noteq> []"
    using assms(1) by (simp add: upto_rec1)
  have r: "maxRow pixelData w w = 0"
    unfolding maxRow_def row_count_def
    by (intro Max_const_0 ne ballI cnt_none) (auto simp: row_pixels_def no)
  have c: "maxCol pixelData w w = 0"
    unfolding maxCol_def col_count_def
    by (intro Max_const_0 ne ballI cnt_none) (auto simp: col_pixels_def no)
  have sig: "\<not> diagonal_signature pixelData w w"
    by (simp add: diagonal_signature_def t)
  show ?thesis
    using diag_rows_counts [OF assms(2)] classifier_eq [OF assms(2,1,1)] sig
    by (simp add: t d1 d2 r c diagonal_test_def dbl_div_by_zero occupancy_switch_def)
qed

theorem transparent_bitmap_is_OTHER_witness:
  "0 < (2::int)
   \<and> holds_bitmap (replicate 16 0) 2 2
   \<and> list_all (\<lambda>i. replicate 16 (0::u8) ! (4 * i) \<le> 10) [0..<nat (2 * 2)]
   \<and> total_opaque (replicate 16 0) 2 2 = 0
   \<and> determineResizeDirection (replicate 16 0) 2 2 = Inr OTHER"
proof -
  have h0: "0 < (2::int)" by simp
  have h1: "holds_bitmap (replicate 16 0) 2 2" by (simp add: holds_bitmap_def)
  have h2: "\<forall>i < nat (2 * 2). replicate 16 (0::u8) ! (4 * i) \<le> 10" by simp
  have l: "list_all (\<lambda>i. replicate 16 (0::u8) ! (4 * i) \<le> 10) [0..<nat (2 * 2)]"
    by (simp add: list_all_iff)
  from transparent_bitmap_is_OTHER [OF h0 h1 h2] h1 l show ?thesis by simp
qed

text \<open>
  C9. Whatever the buffer and the dimensions, a value \<open>determineResizeDirection\<close>
  returns is one of \<open>DIAGONAL_RESIZE\<close>, \<open>HORIZONTAL_RESIZE\<close>,
  \<open>VERTICAL_RESIZE\<close>, \<open>POINTER\<close> and \<open>OTHER\<close>, never \<open>ARROW\<close> and never
  \<open>IBEAM\<close>; and on a buffer that holds a bitmap of positive dimensions (square ones
  among them) it does return.
\<close>

theorem classifier_range:
  "(\<forall>r. determineResizeDirection pixelData w h = Inr r \<longrightarrow>
        r \<in> {DIAGONAL_RESIZE, HORIZONTAL_RESIZE, VERTICAL_RESIZE, POINTER, OTHER}
        \<and> r \<noteq> ARROW \<and> r \<noteq> IBEAM)
   \<and> (0 < w \<and> 0 < h \<and> holds_bitmap pixelData w h \<longrightarrow>
        (\<exists>r. determineResizeDirection pixelData w h = Inr r))"
proof (intro conjI allI impI)
  fix r
  assume "determineResizeDirection pixelData w h = Inr r"
  then have "r = DIAGONAL_RESIZE \<or> (\<exists>m c. r = occupancy_switch m c)"
    by (auto simp: determineResizeDirection_def split: sum.splits prod.splits bool.splits)
  then show "r \<in> {DIAGONAL_RESIZE, HORIZONTAL_RESIZE, VERTICAL_RESIZE, POINTER, OTHER}"
    by (auto simp: occupancy_switch_def)
  then show "r \<noteq> ARROW" "r \<noteq> IBEAM"
    by (auto simp: ARROW_def IBEAM_def HORIZONTAL_RESIZE_def VERTICAL_RESIZE_def
        DIAGONAL_RESIZE_def POINTER_def OTHER_def)
next
  assume "0 < w \<and> 0 < h \<and> holds_bitmap pixelData w h"
  then show "\<exists>r. determineResizeDirection pixelData w h = Inr r"
    by (simp add: classifier_eq)
qed

theorem classifier_range_witness:
  "0 < (2::int) \<and> holds_bitmap (replicate 16 0) 2 2
   \<and> determineResizeDirection (replicate 16 0) 2 2 = Inr OTHER
   \<and> OTHER \<in> {DIAGONAL_RESIZE, HORIZONTAL_RESIZE, VERTICAL_RESIZE, POINTER, OTHER}
   \<and> OTHER \<noteq> ARROW \<and> OTHER \<noteq> IBEAM"
proof -
  have h0: "0 < (2::int)" by simp
  have h1: "holds_bitmap (replicate 16 0) 2 2" by (simp add: holds_bitmap_def)
  have v: "determineResizeDirection (replicate 16 0) 2 2 = Inr OTHER" by code_simp
  from classifier_range [of "replicate 16 0" 2 2] h0 h1 v show ?thesis by simp
qed

section \<open>The facade: what a query returns\<close>

lemma int_of_CGFloat_range:
  "int_of_CGFloat f = Inr n \<Longrightarrow> - (2 ^ 31) \<le> n \<and> n < 2 ^ 31"
  by (auto simp: int_of_CGFloat_def Let_def split: if_splits)

lemma int_of_CGFloat_nonpos:
  assumes "int_of_CGFloat f = Inr n" "f \<le> 0"
  shows "n \<le> 0"
proof -
  have "\<lceil>f\<rceil> \<le> 0" using assms(2) by (simp add: ceiling_le_iff)
  moreover have "\<lfloor>f\<rfloor> \<le> 0" using assms(2) by (simp add: floor_le_iff)
  ultimately show ?thesis
    using assms(1) by (auto simp: int_of_CGFloat_def Let_def split: if_splits)
qed

lemma ratio_defined:
  assumes "0 < h"
  obtains q where "dbl_div (dbl_of_int w) (dbl_of_int h) = Inr q"
  using dbl_div_defined [OF assms] by blast

lemma getCursorType_fetched:
  assumes "size_status sv = kCGErrorSuccess" "0 < size_bytes sv"
    and "malloc_result sv \<noteq> NULL" "data_status sv = kCGErrorSuccess"
  shows "getCursorType sv =
     (fst (classify_fetched (malloc_result sv) (take (nat (size_bytes sv)) (data_bytes sv))
             (size_width sv) (size_height sv)),
      Malloc (malloc_result sv) #
      snd (classify_fetched (malloc_result sv) (take (nat (size_bytes sv)) (data_bytes sv))
             (size_width sv) (size_height sv)))"
  using assms by (simp add: getCursorType_def Let_def split: prod.splits)

lemma sample_service_simps [simp]:
  "size_status (sample_service fw fh bytes) = kCGErrorSuccess"
  "size_bytes (sample_service fw fh bytes) = int (length bytes)"
  "malloc_result (sample_service fw fh bytes) = 4096"
  "data_status (sample_service fw fh bytes) = kCGErrorSuccess"
  "data_bytes (sample_service fw fh bytes) = bytes"
  "size_width (sample_service fw fh bytes) = fw"
  "size_height (sample_service fw fh bytes) = fh"
  by (simp_all add: sample_service_def)

lemma sample_square:
  "getCurrentCursorType (sample_service 2 2 (replicate 16 0))
     = (Inr OTHER, [Malloc 4096, Classify 4096, Free 4096])"
  by code_simp

text \<open>
  C3. When the size query, the allocation and the fetch succeed and the fetched bitmap
  is 23 wide and 22 high, \<open>getCurrentCursorType\<close> returns \<open>IBEAM\<close> whatever bytes
  the buffer holds, and its trace is the allocation followed by the release: the
  classifier, the only reader of the buffer, is not called.
\<close>

theorem ibeam_short_circuit:
  assumes "size_status sv = kCGErrorSuccess" "0 < size_bytes sv"
    and "malloc_result sv \<noteq> NULL" "data_status sv = kCGErrorSuccess"
    and "int_of_CGFloat (size_width sv) = Inr 23" "int_of_CGFloat (size_height sv) = Inr 22"
  shows "getCurrentCursorType (sv\<lparr>data_bytes := bytes\<rparr>) =
     (Inr IBEAM, [Malloc (malloc_result sv), Free (malloc_result sv)])
     \<and> Classify (malloc_result sv) \<notin> set (snd (getCurrentCursorType (sv\<lparr>data_bytes := bytes\<rparr>)))"
proof -
  obtain q where "dbl_div (dbl_of_int 23) (dbl_of_int 22) = Inr q"
    by (rule ratio_defined [of 22 23]) simp
  then show ?thesis
    using assms
    by (simp add: getCurrentCursorType_def getCursorType_fetched classify_fetched_def)
qed

theorem ibeam_short_circuit_witness:
  "size_status (sample_service 23 22 (replicate 2024 0)) = kCGErrorSuccess
   \<and> 0 < size_bytes (sample_service 23 22 (replicate 2024 0))
   \<and> malloc_result (sample_service 23 22 (replicate 2024 0)) \<noteq> NULL
   \<and> data_status (sample_service 23 22 (replicate 2024 0)) = kCGErrorSuccess
   \<and> int_of_CGFloat (size_width (sample_service 23 22 (replicate 2024 0))) = Inr 23
   \<and> int_of_CGFloat (size_height (sample_service 23 22 (replicate 2024 0))) = Inr 22
   \<and> getCurrentCursorType ((sample_service 23 22 (replicate 2024 0))\<lparr>data_bytes := replicate 2024 255\<rparr>)
       = (Inr IBEAM, [Malloc 4096, Free 4096])"
proof -
  let ?sv = "sample_service 23 22 (replicate 2024 0)"
  have h1: "size_status ?sv = kCGErrorSuccess" by simp
  have h2: "0 < size_bytes ?sv" by simp
  have h3: "malloc_result ?sv \<noteq> NULL" by (simp add: NULL_def)
  have h4: "data_status ?sv = kCGErrorSuccess" by simp
  have h5: "int_of_CGFloat (size_width ?sv) = Inr 23" by (simp add: int_of_CGFloat_def)
  have h6: "int_of_CGFloat (size_height ?sv) = Inr 22" by (simp add: int_of_CGFloat_def)
  from ibeam_short_circuit [OF h1 h2 h3 h4 h5 h6, of "replicate 2024 255"] h1 h2 h3 h4 h5 h6
  show ?thesis by simp
qed

text \<open>
  C4. For a successful query whose fetched bitmap has positive dimensions, the classifier
  is called exactly when the double-precision ratio of width to height equals 1, which
  for \<^verbatim>\<open>int\<close> dimensions is exactly when they are equal. When it is called, it is
  called on the fetched buffer with the fetched dimensions and the query returns what
  \<open>determineResizeDirection\<close> returns, releasing the buffer after the call; and for a
  bitmap that is neither square nor 23 by 22 the query returns \<open>ARROW\<close>.
\<close>

theorem square_delegation:
  assumes "size_status sv = kCGErrorSuccess" "0 < size_bytes sv"
    and "malloc_result sv \<noteq> NULL" "data_status sv = kCGErrorSuccess"
    and "int_of_CGFloat (size_width sv) = Inr w" "int_of_CGFloat (size_height sv) = Inr h"
    and "0 < w" "0 < h"
  shows "(Classify (malloc_result sv) \<in> set (snd (getCurrentCursorType sv)))
         = (dbl_div (dbl_of_int w) (dbl_of_int h) = Inr (dbl_of_int 1))
     \<and> (dbl_div (dbl_of_int w) (dbl_of_int h) = Inr (dbl_of_int 1)) = (w = h)
     \<and> (dbl_div (dbl_of_int w) (dbl_of_int h) = Inr (dbl_of_int 1) \<longrightarrow>
          fst (getCurrentCursorType sv) =
            determineResizeDirection (take (nat (size_bytes sv)) (data_bytes sv)) w h
          \<and> snd (getCurrentCursorType sv) =
            (case determineResizeDirection (take (nat (size_bytes sv)) (data_bytes sv)) w h of
               Inl f \<Rightarrow> [Malloc (malloc_result sv), Classify (malloc_result sv)]
             | Inr result \<Rightarrow>
                 [Malloc (malloc_result sv), Classify (malloc_result sv),
                  Free (malloc_result sv)]))
     \<and> (w \<noteq> h \<and> \<not> (w = 23 \<and> h = 22) \<longrightarrow>
          getCurrentCursorType sv =
            (Inr ARROW, [Malloc (malloc_result sv), Free (malloc_result sv)]))"
proof -
  have "w < 2 ^ 31" "h < 2 ^ 31"
    using assms(5,6) int_of_CGFloat_range by blast+
  then have "w < 2 ^ 53" "h < 2 ^ 53" by simp_all
  then have iff: "(dbl_div (dbl_of_int w) (dbl_of_int h) = Inr (dbl_of_int 1)) = (w = h)"
    using ratio_one_iff assms(7,8) by blast
  obtain q where q: "dbl_div (dbl_of_int w) (dbl_of_int h) = Inr q"
    using ratio_defined [OF assms(8)] by blast
  have g: "getCurrentCursorType sv =
     (fst (classify_fetched (malloc_result sv) (take (nat (size_bytes sv)) (data_bytes sv))
             (size_width sv) (size_height sv)),
      Malloc (malloc_result sv) #
      snd (classify_fetched (malloc_result sv) (take (nat (size_bytes sv)) (data_bytes sv))
             (size_width sv) (size_height sv)))"
    using assms(1-4) by (simp add: getCurrentCursorType_def getCursorType_fetched)
  show ?thesis
  proof (cases "w = h")
    case True
    then have "q = dbl_of_int 1" using iff q by simp
    with True q iff assms(5-8) show ?thesis
      unfolding g by (auto simp: classify_fetched_def split: sum.splits)
  next
    case False
    then have "q \<noteq> dbl_of_int 1" using iff q by simp
    with False q iff assms(5-8) show ?thesis
      unfolding g by (auto simp: classify_fetched_def)
  qed
qed

theorem square_delegation_witness:
  "int_of_CGFloat (size_width (sample_service 3 2 (replicate 24 255))) = Inr 3
   \<and> int_of_CGFloat (size_height (sample_service 3 2 (replicate 24 255))) = Inr 2
   \<and> Classify 4096 \<notin> set (snd (getCurrentCursorType (sample_service 3 2 (replicate 24 255))))
   \<and> dbl_div (dbl_of_int 3) (dbl_of_int 2) \<noteq> Inr (dbl_of_int 1)
   \<and> getCurrentCursorType (sample_service 3 2 (replicate 24 255))
       = (Inr ARROW, [Malloc 4096, Free 4096])
   \<and> Classify 4096 \<in> set (snd (getCurrentCursorType (sample_service 2 2 (replicate 16 0))))
   \<and> dbl_div (dbl_of_int 2) (dbl_of_int 2) = Inr (dbl_of_int 1)
   \<and> fst (getCurrentCursorType (sample_service 2 2 (replicate 16 0)))
       = determineResizeDirection (replicate 16 0) 2 2
   \<and> determineResizeDirection (replicate 16 0) 2 2 = Inr OTHER"
proof -
  let ?sq = "sample_service 2 2 (replicate 16 0)"
  have s1: "size_status ?sq = kCGErrorSuccess" by simp
  have s2: "0 < size_bytes ?sq" by simp
  have s3: "malloc_result ?sq \<noteq> NULL" by (simp add: NULL_def)
  have s4: "data_status ?sq = kCGErrorSuccess" by simp
  have s5: "int_of_CGFloat (size_width ?sq) = Inr 2" by (simp add: int_of_CGFloat_def)
  have s6: "int_of_CGFloat (size_height ?sq) = Inr 2" by (simp add: int_of_CGFloat_def)
  have s7: "0 < (2::int)" by simp
  have v: "determineResizeDirection (replicate 16 0) 2 2 = Inr OTHER" by code_simp
  have sq: "dbl_div (dbl_of_int 2) (dbl_of_int 2) = Inr (dbl_of_int 1)
      \<and> fst (getCurrentCursorType ?sq) = determineResizeDirection (replicate 16 0) 2 2"
    using square_delegation [OF s1 s2 s3 s4 s5 s6 s7 s7] by simp
  let ?sv = "sample_service 3 2 (replicate 24 255)"
  have h1: "size_status ?sv = kCGErrorSuccess" by simp
  have h2: "0 < size_bytes ?sv" by simp
  have h3: "malloc_result ?sv \<noteq> NULL" by (simp add: NULL_def)
  have h4: "data_status ?sv = kCGErrorSuccess" by simp
  have h5: "int_of_CGFloat (size_width ?sv) = Inr 3" by (simp add: int_of_CGFloat_def)
  have h6: "int_of_CGFloat (size_height ?sv) = Inr 2" by (simp add: int_of_CGFloat_def)
  have h7: "0 < (3::int)" and h8: "0 < (2::int)" by simp_all
  from square_delegation [OF h1 h2 h3 h4 h5 h6 h7 h8] h5 h6 sq v
  show ?thesis by (simp add: sample_square)
qed

text \<open>
  C5. On each failure path (the size query fails or reports a non-positive size, the
  allocation fails, the fetch fails) the query returns the literal 1 and raises nothing.
  That value is the enumerator \<open>IBEAM\<close>, a declared category, and it is not
  \<open>OTHER\<close>: the sentinel does collide with a named category.
\<close>

theorem failure_sentinel_is_IBEAM:
  "fst (getCurrentCursorType ((sample_service 2 2 (replicate 16 0))\<lparr>size_status := 1000\<rparr>)) = Inr 1
   \<and> fst (getCurrentCursorType ((sample_service 2 2 (replicate 16 0))\<lparr>size_bytes := 0\<rparr>)) = Inr 1
   \<and> fst (getCurrentCursorType ((sample_service 2 2 (replicate 16 0))\<lparr>malloc_result := NULL\<rparr>)) = Inr 1
   \<and> fst (getCurrentCursorType ((sample_service 2 2 (replicate 16 0))\<lparr>data_status := 1000\<rparr>)) = Inr 1
   \<and> IBEAM = 1 \<and> IBEAM \<in> set declared_categories \<and> OTHER \<noteq> 1"
  by (simp add: getCurrentCursorType_def getCursorType_def Let_def sample_service_def
      kCGErrorSuccess_def NULL_def declared_categories_def IBEAM_def OTHER_def)

lemma failure_returns_1:
  assumes "size_status sv \<noteq> kCGErrorSuccess \<or> size_bytes sv \<le> 0
     \<or> malloc_result sv = NULL \<or> data_status sv \<noteq> kCGErrorSuccess"
  shows "fst (getCurrentCursorType sv) = Inr 1"
    and "heap_after (snd (getCurrentCursorType sv)) {} = Some {}"
  using assms by (auto simp: getCurrentCursorType_def getCursorType_def Let_def)

text \<open>
  A query returns whenever the reported size converts to \<^verbatim>\<open>int\<close> and, for a square
  bitmap, the buffer holds it.
\<close>

lemma getCurrentCursorType_returns:
  assumes "int_of_CGFloat (size_width sv) = Inr w" "int_of_CGFloat (size_height sv) = Inr h"
    and "w = h \<Longrightarrow> 0 < w \<Longrightarrow> holds_bitmap (take (nat (size_bytes sv)) (data_bytes sv)) w h"
  shows "\<exists>r. fst (getCurrentCursorType sv) = Inr r"
proof (cases "size_status sv \<noteq> kCGErrorSuccess \<or> size_bytes sv \<le> 0
     \<or> malloc_result sv = NULL \<or> data_status sv \<noteq> kCGErrorSuccess")
  case True
  then show ?thesis using failure_returns_1(1) by blast
next
  case False
  then have g: "fst (getCurrentCursorType sv) =
      fst (classify_fetched (malloc_result sv) (take (nat (size_bytes sv)) (data_bytes sv))
             (size_width sv) (size_height sv))"
    by (simp add: getCurrentCursorType_def getCursorType_fetched)
  show ?thesis
  proof (cases "0 < w \<and> 0 < h")
    case False
    then show ?thesis
      unfolding g using assms(1,2) by (auto simp: classify_fetched_def)
  next
    case pos: True
    then obtain q where q: "dbl_div (dbl_of_int w) (dbl_of_int h) = Inr q"
      using ratio_defined by blast
    have rng: "w < 2 ^ 53" "h < 2 ^ 53"
      using int_of_CGFloat_range [OF assms(1)] int_of_CGFloat_range [OF assms(2)] by simp_all
    show ?thesis
    proof (cases "q = dbl_of_int 1")
      case True
      then have "w = h"
        using ratio_one_iff [of w h] pos rng q by simp
      from assms(3) [OF this] pos
      obtain r where "determineResizeDirection (take (nat (size_bytes sv)) (data_bytes sv)) w h = Inr r"
        using classifier_eq by blast
      then show ?thesis
        unfolding g using assms(1,2) pos q by (simp add: classify_fetched_def)
    next
      case False
      then show ?thesis
        unfolding g using assms(1,2) pos q by (simp add: classify_fetched_def)
    qed
  qed
qed

lemma classify_fetched_events:
  assumes "classify_fetched p buf fw fh = (Inr r, es)"
  shows "es = [Free p] \<or> es = [Classify p, Free p]"
  using assms
  by (auto simp: classify_fetched_def split: sum.splits if_splits)

text \<open>
  C8. On every path on which the query returns, the heap after the trace holds no live
  buffer and no release was of a pointer that was not live; and when a buffer was
  allocated (the size query succeeded and \<^verbatim>\<open>malloc\<close> did not return \<open>NULL\<close>), it
  is allocated once and released once.
\<close>

theorem buffer_released_once:
  assumes "fst (getCurrentCursorType sv) = Inr r"
  shows "heap_after (snd (getCurrentCursorType sv)) {} = Some {}
     \<and> (size_status sv = kCGErrorSuccess \<and> 0 < size_bytes sv \<and> malloc_result sv \<noteq> NULL \<longrightarrow>
          count_list (snd (getCurrentCursorType sv)) (Malloc (malloc_result sv)) = 1
          \<and> count_list (snd (getCurrentCursorType sv)) (Free (malloc_result sv)) = 1)"
proof (cases "size_status sv = kCGErrorSuccess \<and> 0 < size_bytes sv \<and> malloc_result sv \<noteq> NULL")
  case False
  then show ?thesis
    by (auto simp: getCurrentCursorType_def getCursorType_def Let_def)
next
  case ok: True
  show ?thesis
  proof (cases "data_status sv = kCGErrorSuccess")
    case False
    with ok show ?thesis
      by (simp add: getCurrentCursorType_def getCursorType_def Let_def)
  next
    case True
    let ?c = "classify_fetched (malloc_result sv) (take (nat (size_bytes sv)) (data_bytes sv))
             (size_width sv) (size_height sv)"
    have g: "getCursorType sv = (fst ?c, Malloc (malloc_result sv) # snd ?c)"
      using ok True by (simp add: getCursorType_fetched)
    with assms have "?c = (Inr r, snd ?c)"
      by (simp add: getCurrentCursorType_def prod_eq_iff)
    from classify_fetched_events [OF this]
    show ?thesis
      using ok by (auto simp: getCurrentCursorType_def g)
  qed
qed

theorem buffer_released_once_witness:
  "fst (getCurrentCursorType (sample_service 2 2 (replicate 16 0))) = Inr OTHER
   \<and> snd (getCurrentCursorType (sample_service 2 2 (replicate 16 0)))
       = [Malloc 4096, Classify 4096, Free 4096]
   \<and> heap_after (snd (getCurrentCursorType (sample_service 2 2 (replicate 16 0)))) {} = Some {}
   \<and> count_list (snd (getCurrentCursorType (sample_service 2 2 (replicate 16 0)))) (Malloc 4096) = 1
   \<and> count_list (snd (getCurrentCursorType (sample_service 2 2 (replicate 16 0)))) (Free 4096) = 1"
proof -
  let ?sv = "sample_service 2 2 (replicate 16 0)"
  have h: "fst (getCurrentCursorType ?sv) = Inr OTHER" by (simp add: sample_square)
  have ok: "size_status ?sv = kCGErrorSuccess \<and> 0 < size_bytes ?sv \<and> malloc_result ?sv \<noteq> NULL"
    by (simp add: NULL_def)
  from buffer_released_once [OF h] ok h show ?thesis
    by (simp add: sample_square)
qed

text \<open>
  C10. When the size query, the allocation and the fetch succeed and the service reports
  a non-positive width or a non-positive height, the query releases the buffer and returns
  \<open>ARROW\<close>, which is not the value 1 of the failure paths.
\<close>

theorem nonpositive_size_is_ARROW:
  assumes "size_status sv = kCGErrorSuccess" "0 < size_bytes sv"
    and "malloc_result sv \<noteq> NULL" "data_status sv = kCGErrorSuccess"
    and "int_of_CGFloat (size_width sv) = Inr w" "int_of_CGFloat (size_height sv) = Inr h"
    and "size_width sv \<le> 0 \<or> size_height sv \<le> 0"
  shows "getCurrentCursorType sv = (Inr ARROW, [Malloc (malloc_result sv), Free (malloc_result sv)])
     \<and> ARROW \<noteq> 1"
proof -
  have "w \<le> 0 \<or> h \<le> 0"
    using assms(5-7) int_of_CGFloat_nonpos by blast
  then show ?thesis
    using assms(1-6)
    by (auto simp: getCurrentCursorType_def getCursorType_fetched classify_fetched_def ARROW_def)
qed

theorem nonpositive_size_is_ARROW_witness:
  "size_status (sample_service 0 0 (replicate 16 0)) = kCGErrorSuccess
   \<and> 0 < size_bytes (sample_service 0 0 (replicate 16 0))
   \<and> malloc_result (sample_service 0 0 (replicate 16 0)) \<noteq> NULL
   \<and> data_status (sample_service 0 0 (replicate 16 0)) = kCGErrorSuccess
   \<and> int_of_CGFloat (size_width (sample_service 0 0 (replicate 16 0))) = Inr 0
   \<and> int_of_CGFloat (size_height (sample_service 0 0 (replicate 16 0))) = Inr 0
   \<and> size_width (sample_service 0 0 (replicate 16 0)) \<le> 0
   \<and> getCurrentCursorType (sample_service 0 0 (replicate 16 0))
       = (Inr ARROW, [Malloc 4096, Free 4096])
   \<and> ARROW \<noteq> 1"
proof -
  let ?sv = "sample_service 0 0 (replicate 16 0)"
  have h1: "size_status ?sv = kCGErrorSuccess" by simp
  have h2: "0 < size_bytes ?sv" by simp
  have h3: "malloc_result ?sv \<noteq> NULL" by (simp add: NULL_def)
  have h4: "data_status ?sv = kCGErrorSuccess" by simp
  have h5: "int_of_CGFloat (size_width ?sv) = Inr 0" by (simp add: int_of_CGFloat_def)
  have h6: "int_of_CGFloat (size_height ?sv) = Inr 0" by (simp add: int_of_CGFloat_def)
  have h7: "size_width ?sv \<le> 0 \<or> size_height ?sv \<le> 0" by simp
  from nonpositive_size_is_ARROW [OF h1 h2 h3 h4 h5 h6 h7] h1 h2 h3 h4 h5 h6
  show ?thesis by simp
qed

section \<open>Visibility controller: status codes\<close>

text \<open>
  C7. \<open>hideCursor\<close> and \<open>showCursor\<close> return status 0 whatever the platform's hide
  or show command returned; a non-success result of that command is written to the error
  stream (one line carrying the code) and a success writes nothing, so the code reaches
  the caller through the log only.
\<close>

theorem visibility_status_always_zero:
  "fst (hideCursor error ref) = 0
   \<and> fst (showCursor error ref) = 0
   \<and> stderr_lines (snd (hideCursor error ref)) =
       (if error = kCGErrorSuccess then []
        else [(''[Error] CGDisplayHideCursor failed (error = %d)'', error)])
   \<and> stderr_lines (snd (showCursor error ref)) =
       (if error = kCGErrorSuccess then []
        else [(''[Error] CGDisplayShowCursor failed (error = %d)'', error)])"
  by (simp add: hideCursor_def showCursor_def)

end
